theory Spec2Isabelle
  imports
    Complex_Main
    "HOL-Library.Multiset"
    "HOL-Library.Sublist"
    "HOL-Library.Char_ord"
    "HOL-Library.List_Lexorder"
begin

section \<open>Data model of \<open>storage.ts\<close>\<close>

text \<open>
  The types of the Patreon API response, as \<open>storage.ts\<close> declares them. The field
  \<open>id\<close> is called \<open>post_id\<close> here (\<open>id\<close> is the identity function of HOL). The
  \<open>meta.pagination.total\<close> field is never read by the synchronisation and is left out.
  \<open>links_next\<close> is \<open>posts.links?.next\<close>: \<open>None\<close> when the link (or \<open>links\<close>) is absent.
  JavaScript numbers that count things are integers here.
\<close>

record attributes =
  comment_count :: int
  like_count :: int
  title :: string
  published_at :: string
  content_teaser_text :: string
  url :: string

record PatreonPostData =
  post_id :: string
  attributes :: attributes

record PatreonApiResponse =
  data :: "PatreonPostData list"
  links_next :: "string option"

text \<open>A row of the table \<open>patreon_posts\<close> (columns in the order of \<open>create table\<close>).\<close>

record posts_row =
  r_id :: string
  r_title :: string
  r_published_at :: string
  r_comment_count :: int
  r_like_count :: int
  r_content_teaser_text :: string
  r_url :: string

text \<open>The projection that \<open>getPosts\<close> selects.\<close>

record StoredPost =
  s_title :: string
  s_published_at :: string
  s_comment_count :: int
  s_like_count :: int
  s_url :: string

text \<open>
  A row of the table \<open>patreon_post_runs\<close>. \<open>started_at\<close> is the ISO string of the
  start time; ISO strings of one width order as the instants do, so the instant itself
  (milliseconds) stands for the string. The three other columns are NULL (\<open>None\<close>) until
  \<open>storeRunEnd\<close> writes them. The duration is a quotient of milliseconds by 1000.
\<close>

record StoredPreviousRun =
  started_at :: int
  duration_seconds :: "rat option"
  posts_retrieved :: "nat option"
  last_next_link :: "string option"

datatype console_entry =
    LogRetrievedRecent nat
  | LogRetrievedTotal nat
  | ErrorLastRunNotUpdated
  | ErrorInvalidSortParameters string string

text \<open>
  The state of the durable object: its two tables (rows in rowid order) and the console.
  Two more fields record what a test double would: \<open>fetched\<close>, the URLs handed to
  \<open>fetch\<close> in call order, and \<open>upserted\<close>, the posts handed to the
  \<open>insert or replace\<close> statement in call order. No function below reads them to decide
  anything, except that the network is asked with the number of the call.
\<close>

record storage =
  patreon_posts :: "posts_row list"
  patreon_post_runs :: "StoredPreviousRun list"
  console :: "console_entry list"
  fetched :: "string list"
  upserted :: "PatreonPostData list"

text \<open>What \<open>initTables\<close> leaves on a fresh object: both tables exist and are empty.\<close>

definition initTables :: storage where
  "initTables = \<lparr>patreon_posts = [], patreon_post_runs = [], console = [],
     fetched = [], upserted = []\<rparr>"

text \<open>
  What the source can raise: an exception of \<open>fetch\<close> or \<open>json\<close>, and the two
  errors with which the storage engine refuses the statement of \<open>getPosts\<close>.
\<close>

datatype error = NetworkFault | SqliteMismatch | LikePatternTooComplex

section \<open>Record store\<close>

text \<open>
  \<open>insert or replace into patreon_posts(...) values (...)\<close> on a table whose \<open>id\<close>
  column is \<open>unique\<close>: the rows in conflict on \<open>id\<close> are deleted, then the new row is
  inserted (it gets the greatest rowid).
\<close>

definition sql_insert_or_replace :: "posts_row \<Rightarrow> posts_row list \<Rightarrow> posts_row list" where
  "sql_insert_or_replace r t = filter (\<lambda>x. r_id x \<noteq> r_id r) t @ [r]"

definition row_of_post :: "PatreonPostData \<Rightarrow> posts_row" where
  "row_of_post post =
     \<lparr>r_id = post_id post,
      r_title = title (attributes post),
      r_published_at = published_at (attributes post),
      r_comment_count = comment_count (attributes post),
      r_like_count = like_count (attributes post),
      r_content_teaser_text = content_teaser_text (attributes post),
      r_url = url (attributes post)\<rparr>"

text \<open>One iteration of the loop of \<open>upsertJsonPosts\<close>.\<close>

definition upsert :: "PatreonPostData \<Rightarrow> storage \<Rightarrow> storage" where
  "upsert post w =
     w\<lparr>patreon_posts := sql_insert_or_replace (row_of_post post) (patreon_posts w),
       upserted := upserted w @ [post]\<rparr>"

fun upsertPosts :: "PatreonPostData list \<Rightarrow> storage \<Rightarrow> storage" where
  "upsertPosts [] w = w"
| "upsertPosts (post # rest) w = upsertPosts rest (upsert post w)"

definition upsertJsonPosts :: "PatreonApiResponse \<Rightarrow> storage \<Rightarrow> storage" where
  "upsertJsonPosts posts w = upsertPosts (data posts) w"

text \<open>The row stored under an id, if any.\<close>

definition row_with_id :: "string \<Rightarrow> posts_row list \<Rightarrow> posts_row option" where
  "row_with_id i t = find (\<lambda>x. r_id x = i) t"

section \<open>Run ledger\<close>

text \<open>
  \<open>storeRunStart\<close>: \<open>insert into patreon_post_runs(started_at) values (?)\<close>. The clock
  reading \<open>new Date()\<close> is the argument \<open>startTime\<close>.
\<close>

definition sql_insert_run :: "int \<Rightarrow> StoredPreviousRun list \<Rightarrow> StoredPreviousRun list" where
  "sql_insert_run t rs =
     rs @ [\<lparr>started_at = t, duration_seconds = None, posts_retrieved = None,
            last_next_link = None\<rparr>]"

definition storeRunStart :: "int \<Rightarrow> storage \<Rightarrow> storage" where
  "storeRunStart startTime w =
     w\<lparr>patreon_post_runs := sql_insert_run startTime (patreon_post_runs w)\<rparr>"

text \<open>
  \<open>update patreon_post_runs set duration_seconds = ?, posts_retrieved = ?,
  last_next_link = ? where started_at = ?\<close>: every row with that start time is
  rewritten; the second component is \<open>rowsWritten\<close>.
\<close>

definition sql_update_run ::
  "rat \<Rightarrow> nat \<Rightarrow> string option \<Rightarrow> int \<Rightarrow> StoredPreviousRun list \<Rightarrow> StoredPreviousRun list \<times> nat"
where
  "sql_update_run duration retrieved link t rs =
     (map (\<lambda>r. if started_at r = t
                then r\<lparr>duration_seconds := Some duration, posts_retrieved := Some retrieved,
                       last_next_link := link\<rparr>
                else r) rs,
      length (filter (\<lambda>r. started_at r = t) rs))"

definition storeRunEnd :: "int \<Rightarrow> rat \<Rightarrow> nat \<Rightarrow> string option \<Rightarrow> storage \<Rightarrow> storage" where
  "storeRunEnd startTime duration retrieved link w =
     (let (rs, rowsWritten) = sql_update_run duration retrieved link startTime (patreon_post_runs w);
          w' = w\<lparr>patreon_post_runs := rs\<rparr>
      in if rowsWritten = 0 then w'\<lparr>console := console w' @ [ErrorLastRunNotUpdated]\<rparr> else w')"

text \<open>
  \<open>getLastRun\<close>: \<open>select ... order by started_at desc limit 1\<close>, \<open>undefined\<close>
  (\<open>None\<close>) on an empty table. Among rows with the same greatest start time the first
  in rowid order is taken; SQL leaves that choice to the engine.
\<close>

definition getLastRun :: "storage \<Rightarrow> StoredPreviousRun option" where
  "getLastRun w =
     (case patreon_post_runs w of
        [] \<Rightarrow> None
      | r # rs \<Rightarrow> Some (foldl (\<lambda>best x. if started_at best < started_at x then x else best) r rs))"

section \<open>Ingestion: \<open>syncInPostsFromPatreon\<close>\<close>

text \<open>
  The network. \<open>net k u\<close> is what \<open>await fetch(u)\<close> followed by
  \<open>await response.json()\<close> gives when it is the call number \<open>k\<close> (counted from 0 over
  the life of the object): \<open>None\<close> when either of the two throws, the parsed body
  otherwise. The call number lets the remote answer differently each time.
\<close>

type_synonym network = "nat \<Rightarrow> string \<Rightarrow> PatreonApiResponse option"

definition initialApiUrl :: string where
  "initialApiUrl = ''https://www.patreon.com/api/posts?fields[campaign]=name%2Curl%2Cpatron_count&fields[post]=url%2Ccontent_teaser_text%2Ccomment_count%2Ccommenter_count%2Ccontent%2Ccreated_at%2Clike_count%2Cpublished_at%2Cpatreon_url%2Cpost_type%2Ctitle%2Cview_count&fields[post_tag]=tag_type%2Cvalue&filter[campaign_id]=76490&sort=-published_at&json-api-use-default-includes=false&json-api-version=1.0''"

text \<open>
  JavaScript truthiness of a \<open>string | undefined | null\<close>: \<open>!apiUrl\<close> holds for
  \<open>undefined\<close>, \<open>null\<close> and the empty string.
\<close>

definition truthy :: "string option \<Rightarrow> bool" where
  "truthy u = (case u of None \<Rightarrow> False | Some s \<Rightarrow> s \<noteq> [])"

text \<open>
  The body of the loop \<open>for (let i = 0; i < 20; ++i) { ... }\<close>, which the source
  has twice, up to the assignment \<open>apiUrl = posts.links?.next\<close>. The argument
  \<open>recent\<close> tells which of the two loops it is (\<open>True\<close>: the first, which logs
  "recent posts"). The result is \<open>Inl\<close> when \<open>fetch\<close> or \<open>json\<close> throws, and
  otherwise the new values of \<open>apiUrl\<close> and \<open>retrievedPosts\<close>.
\<close>

definition retrieved_message :: "bool \<Rightarrow> nat \<Rightarrow> console_entry" where
  "retrieved_message recent n = (if recent then LogRetrievedRecent n else LogRetrievedTotal n)"

definition fetch_page ::
  "network \<Rightarrow> bool \<Rightarrow> string \<Rightarrow> nat \<Rightarrow> storage \<Rightarrow> (error + (string option \<times> nat)) \<times> storage"
where
  "fetch_page net recent apiUrl retrievedPosts w =
     (let w1 = w\<lparr>fetched := fetched w @ [apiUrl]\<rparr> in
      case net (length (fetched w)) apiUrl of
        None \<Rightarrow> (Inl NetworkFault, w1)
      | Some posts \<Rightarrow>
          (let w2 = upsertJsonPosts posts w1;
               n = retrievedPosts + length (data posts);
               w3 = w2\<lparr>console := console w2 @ [retrieved_message recent n]\<rparr>
           in (Inr (links_next posts, n), w3)))"

text \<open>
  The loop itself; \<open>budget\<close> is \<open>20 - i\<close>. An exception leaves the loop and the
  function; \<open>if (!apiUrl) break\<close> leaves the loop with the falsy \<open>apiUrl\<close>.
\<close>

fun fetch_loop ::
  "network \<Rightarrow> bool \<Rightarrow> nat \<Rightarrow> string \<Rightarrow> nat \<Rightarrow> storage \<Rightarrow> (error + (string option \<times> nat)) \<times> storage"
where
  "fetch_loop net recent 0 apiUrl retrievedPosts w = (Inr (Some apiUrl, retrievedPosts), w)"
| "fetch_loop net recent (Suc budget) apiUrl retrievedPosts w =
     (case fetch_page net recent apiUrl retrievedPosts w of
        (Inl e, w1) \<Rightarrow> (Inl e, w1)
      | (Inr (None, n), w3) \<Rightarrow> (Inr (None, n), w3)
      | (Inr (Some u, n), w3) \<Rightarrow>
          if u = [] then (Inr (Some u, n), w3) else fetch_loop net recent budget u n w3)"

definition phaseA :: "network \<Rightarrow> storage \<Rightarrow> (error + (string option \<times> nat)) \<times> storage" where
  "phaseA net w = fetch_loop net True 20 initialApiUrl 0 w"

definition phaseB ::
  "network \<Rightarrow> string \<Rightarrow> nat \<Rightarrow> storage \<Rightarrow> (error + (string option \<times> nat)) \<times> storage" where
  "phaseB net apiUrl retrievedPosts w = fetch_loop net False 20 apiUrl retrievedPosts w"

text \<open>\<open>if (lastRun?.last_next_link) { apiUrl = lastRun.last_next_link; }\<close>\<close>

definition archive_start :: "StoredPreviousRun option \<Rightarrow> string option \<Rightarrow> string option" where
  "archive_start lastRun apiUrl =
     (case lastRun of
        None \<Rightarrow> apiUrl
      | Some r \<Rightarrow> if truthy (last_next_link r) then last_next_link r else apiUrl)"

text \<open>
  One run. \<open>startTime\<close> is the clock at \<open>storeRunStart\<close>, \<open>endTime\<close> is
  \<open>Date.now()\<close> at the call of \<open>storeRunEnd\<close>. The source has no \<open>try\<close>: a
  fault in either loop is the result of the run.
\<close>

definition syncInPostsFromPatreon ::
  "network \<Rightarrow> int \<Rightarrow> int \<Rightarrow> storage \<Rightarrow> (error + unit) \<times> storage" where
  "syncInPostsFromPatreon net startTime endTime w =
     (let lastRun = getLastRun w;
          w1 = storeRunStart startTime w;
          duration = of_int (endTime - startTime) / 1000
      in case phaseA net w1 of
           (Inl e, w2) \<Rightarrow> (Inl e, w2)
         | (Inr (apiUrl, retrievedPosts), w2) \<Rightarrow>
             (case archive_start lastRun apiUrl of
                None \<Rightarrow> (Inr (), storeRunEnd startTime duration retrievedPosts None w2)
              | Some u \<Rightarrow>
                  if u = [] then (Inr (), storeRunEnd startTime duration retrievedPosts None w2)
                  else
                    (case phaseB net u retrievedPosts w2 of
                       (Inl e, w3) \<Rightarrow> (Inl e, w3)
                     | (Inr (currentRunsLastNextLink, n), w3) \<Rightarrow>
                         (Inr (), storeRunEnd startTime duration n currentRunsLastNextLink w3))))"

text \<open>
  The scheduler calls one run after the other; \<open>clock\<close> gives the two clock readings
  of each. A run that raised does not stop the next one.
\<close>

fun sync_runs :: "network \<Rightarrow> (int \<times> int) list \<Rightarrow> storage \<Rightarrow> storage" where
  "sync_runs net [] w = w"
| "sync_runs net ((startTime, endTime) # clock) w =
     sync_runs net clock (snd (syncInPostsFromPatreon net startTime endTime w))"

section \<open>Query service: \<open>getPosts\<close>\<close>

text \<open>
  The numbers \<open>page\<close> and \<open>perPage\<close> are JavaScript numbers. A finite one is the
  rational it denotes; \<open>NotFinite\<close> stands for \<open>NaN\<close>, \<open>Infinity\<close> and
  \<open>-Infinity\<close>, which need not be told apart here: subtracting 1 from one of them or
  multiplying one of them by any number gives one of them again, and the engine refuses
  each of them alike. Arithmetic on finite numbers is exact in this model: the rounding
  of a double to 53 bits is not modelled, so the model is the program for the numbers
  whose arithmetic is exact, which includes all integers up to \<open>2 ^ 53\<close> in magnitude.
\<close>

datatype js_number = Finite rat | NotFinite

definition js_minus :: "js_number \<Rightarrow> js_number \<Rightarrow> js_number" where
  "js_minus a b = (case (a, b) of (Finite x, Finite y) \<Rightarrow> Finite (x - y) | _ \<Rightarrow> NotFinite)"

definition js_times :: "js_number \<Rightarrow> js_number \<Rightarrow> js_number" where
  "js_times a b = (case (a, b) of (Finite x, Finite y) \<Rightarrow> Finite (x * y) | _ \<Rightarrow> NotFinite)"

text \<open>
  The engine (SQLite) wants an integer for \<open>limit\<close> and for \<open>offset\<close>. A bound number
  is taken as the integer it equals, if it equals one that lies strictly between the
  least and the greatest 64-bit integer; otherwise the statement fails with
  \<open>SQLITE_MISMATCH\<close>, which \<open>exec\<close> raises.
\<close>

definition sql_must_be_int :: "js_number \<Rightarrow> error + int" where
  "sql_must_be_int v =
     (case v of
        NotFinite \<Rightarrow> Inl SqliteMismatch
      | Finite q \<Rightarrow>
          if of_int \<lfloor>q\<rfloor> = q \<and> - (2 ^ 63) < \<lfloor>q\<rfloor> \<and> \<lfloor>q\<rfloor> < 2 ^ 63 - 1
          then Inr \<lfloor>q\<rfloor> else Inl SqliteMismatch)"

text \<open>
  The \<open>LIKE\<close> operator of the engine. Its matcher: in the pattern \<open>%\<close> stands for
  any run of characters and \<open>_\<close> for any one character, and every other character
  matches itself without regard to the case of ASCII letters. Strings are the bytes of
  their UTF-8 encoding.
\<close>

definition ascii_lower :: "char \<Rightarrow> char" where
  "ascii_lower c =
     (let n = (of_char c :: nat) in if 65 \<le> n \<and> n \<le> 90 then char_of (n + 32) else c)"

fun patternCompare :: "string \<Rightarrow> string \<Rightarrow> bool" where
  "patternCompare [] [] = True"
| "patternCompare [] (c # cs) = False"
| "patternCompare (p # ps) [] = (p = CHR ''%'' \<and> patternCompare ps [])"
| "patternCompare (p # ps) (c # cs) =
     (if p = CHR ''%'' then patternCompare ps (c # cs) \<or> patternCompare (p # ps) cs
      else (p = CHR ''_'' \<or> ascii_lower p = ascii_lower c) \<and> patternCompare ps cs)"

text \<open>
  The operator itself, as the engine evaluates it for one row: a pattern of more than
  50 bytes is refused with the error "LIKE or GLOB pattern too complex" before any
  matching.
\<close>

definition sql_like :: "string \<Rightarrow> string \<Rightarrow> error + bool" where
  "sql_like pattern text =
     (if 50 < length pattern then Inl LikePatternTooComplex
      else Inr (patternCompare pattern text))"

text \<open>
  \<open>WHERE title LIKE ("%" || ? || "%")\<close>, evaluated row by row in the order the rows
  are produced; the first error ends the statement.
\<close>

fun sql_where_title_like :: "string \<Rightarrow> posts_row list \<Rightarrow> error + posts_row list" where
  "sql_where_title_like query [] = Inr []"
| "sql_where_title_like query (r # rows) =
     (case sql_like (''%'' @ query @ ''%'') (r_title r) of
        Inl e \<Rightarrow> Inl e
      | Inr matches \<Rightarrow>
          (case sql_where_title_like query rows of
             Inl e \<Rightarrow> Inl e
           | Inr rest \<Rightarrow> Inr (if matches then r # rest else rest)))"

text \<open>The rows that the pattern of \<open>getPosts\<close> matches, when the operator raises no error.\<close>

definition title_matches :: "string \<Rightarrow> posts_row \<Rightarrow> bool" where
  "title_matches query r = patternCompare (''%'' @ query @ ''%'') (r_title r)"

text \<open>
  \<open>order by ${sortBy} ${sortDirection}\<close>. The rows are sorted on the one column, and
  rows that agree on it stay in the order the engine produced them.
\<close>

definition order_rows :: "(posts_row \<Rightarrow> 'k::linorder) \<Rightarrow> string \<Rightarrow> posts_row list \<Rightarrow> posts_row list" where
  "order_rows key sortDirection rows =
     (if sortDirection = ''asc'' then sort_key key rows else rev (sort_key key (rev rows)))"

definition sql_order_by :: "string \<Rightarrow> string \<Rightarrow> posts_row list \<Rightarrow> posts_row list" where
  "sql_order_by sortBy sortDirection rows =
     (if sortBy = ''comment_count'' then order_rows r_comment_count sortDirection rows
      else if sortBy = ''like_count'' then order_rows r_like_count sortDirection rows
      else order_rows r_published_at sortDirection rows)"

text \<open>
  The window that \<open>limit\<close> and \<open>offset\<close> cut out of the sorted rows, once both are
  integers: a negative offset counts as 0, a negative limit as no limit.
\<close>

definition sql_limit_offset :: "int \<Rightarrow> int \<Rightarrow> 'a list \<Rightarrow> 'a list" where
  "sql_limit_offset limit offset xs =
     (let ys = drop (nat offset) xs in if limit < 0 then ys else take (nat limit) ys)"

definition project :: "posts_row \<Rightarrow> StoredPost" where
  "project r =
     \<lparr>s_title = r_title r, s_published_at = r_published_at r,
      s_comment_count = r_comment_count r, s_like_count = r_like_count r, s_url = r_url r\<rparr>"

text \<open>
  The statement of \<open>getPosts\<close>, in the order in which the engine runs it: the limit
  must be an integer; a limit of 0 ends the statement with no row before anything
  else is looked at; the offset must be an integer; the rows are produced and filtered,
  sorted, and the window is cut out. \<open>scan\<close> is the order in which the engine
  produces the rows of the table; it decides the order of rows that tie on the sort
  column.
\<close>

definition sql_select_posts ::
  "(posts_row list \<Rightarrow> posts_row list) \<Rightarrow> string \<Rightarrow> string \<Rightarrow> string
     \<Rightarrow> js_number \<Rightarrow> js_number \<Rightarrow> posts_row list \<Rightarrow> error + StoredPost list" where
  "sql_select_posts scan sortBy sortDirection query limit offset t =
     (case sql_must_be_int limit of
        Inl e \<Rightarrow> Inl e
      | Inr l \<Rightarrow>
          if l = 0 then Inr []
          else
            (case sql_must_be_int offset of
               Inl e \<Rightarrow> Inl e
             | Inr off \<Rightarrow>
                 (case sql_where_title_like query (scan t) of
                    Inl e \<Rightarrow> Inl e
                  | Inr rows \<Rightarrow>
                      Inr (map project
                             (sql_limit_offset l off (sql_order_by sortBy sortDirection rows))))))"

definition SortableColumns :: "string list" where
  "SortableColumns = [''comment_count'', ''like_count'', ''published_at'']"

text \<open>
  \<open>getPosts\<close>. The result is \<open>Inl\<close> when \<open>exec\<close> raises: the source has no \<open>try\<close>
  here either.
\<close>

definition getPosts ::
  "(posts_row list \<Rightarrow> posts_row list) \<Rightarrow> js_number \<Rightarrow> string \<Rightarrow> string \<Rightarrow> string
     \<Rightarrow> js_number \<Rightarrow> storage \<Rightarrow> (error + StoredPost list) \<times> storage" where
  "getPosts scan page sortBy sortDirection query perPage w =
     (if \<not> (sortBy \<in> set SortableColumns) \<or> \<not> (sortDirection \<in> set [''asc'', ''desc''])
      then (Inr [], w\<lparr>console := console w @ [ErrorInvalidSortParameters sortBy sortDirection]\<rparr>)
      else
        (let offset = js_times (js_minus page (Finite 1)) perPage;
             limit = perPage
         in (sql_select_posts scan sortBy sortDirection query limit offset (patreon_posts w), w)))"

section \<open>Simulated feeds\<close>

text \<open>
  A feed of \<open>length pages\<close> pages that does not change: page \<open>i\<close> is served at
  \<open>cursor i\<close>, page 0 at the URL the run starts from; every page but the last links to
  the next one, the last has no link.
\<close>

definition simulated_feed :: "network \<Rightarrow> (nat \<Rightarrow> string) \<Rightarrow> PatreonPostData list list \<Rightarrow> bool" where
  "simulated_feed net cursor pages =
     (pages \<noteq> [] \<and> cursor 0 = initialApiUrl
      \<and> (\<forall>i < length pages. cursor i \<noteq> [])
      \<and> (\<forall>k. \<forall>i < length pages.
            net k (cursor i) =
              Some \<lparr>data = pages ! i,
                    links_next = (if Suc i < length pages then Some (cursor (Suc i)) else None)\<rparr>))"

text \<open>A concrete one: page \<open>i\<close> holds one post, and its cursor is \<open>i\<close> letters \<open>c\<close>.\<close>

definition sim_cursor :: "nat \<Rightarrow> string" where
  "sim_cursor i = (if i = 0 then initialApiUrl else replicate i CHR ''c'')"

definition sim_post :: "nat \<Rightarrow> PatreonPostData" where
  "sim_post i =
     \<lparr>post_id = replicate (Suc i) CHR ''p'',
      attributes = \<lparr>comment_count = int i, like_count = 0, title = ''post'',
        published_at = ''2024-01-01'', content_teaser_text = [], url = ''u''\<rparr>\<rparr>"

definition sim_pages :: "nat \<Rightarrow> PatreonPostData list list" where
  "sim_pages n = map (\<lambda>i. [sim_post i]) [0..<n]"

definition sim_page :: "nat \<Rightarrow> nat \<Rightarrow> PatreonApiResponse" where
  "sim_page n i =
     \<lparr>data = [sim_post i],
      links_next = (if Suc i < n then Some (sim_cursor (Suc i)) else None)\<rparr>"

definition sim_net :: "nat \<Rightarrow> network" where
  "sim_net n k u =
     (if u = initialApiUrl then Some (sim_page n 0)
      else if u \<noteq> [] \<and> length u < n \<and> u = replicate (length u) CHR ''c''
      then Some (sim_page n (length u))
      else None)"

text \<open>How many runs a feed of \<open>n\<close> pages takes: the first covers 40 pages, each later one 20 more.\<close>

definition runs_needed :: "nat \<Rightarrow> nat" where
  "runs_needed n = max 1 ((n + 19) div 20 - 1)"

section \<open>Fixtures\<close>

definition post_a :: PatreonPostData where
  "post_a = \<lparr>post_id = ''a'', attributes = \<lparr>comment_count = 1, like_count = 2,
     title = ''Episode 1'', published_at = ''2024-01-01'', content_teaser_text = ''t'',
     url = ''u1''\<rparr>\<rparr>"

definition post_a_later :: PatreonPostData where
  "post_a_later = \<lparr>post_id = ''a'', attributes = \<lparr>comment_count = 5, like_count = 7,
     title = ''Episode 1'', published_at = ''2024-01-01'', content_teaser_text = ''t'',
     url = ''u1''\<rparr>\<rparr>"

definition post_b :: PatreonPostData where
  "post_b = \<lparr>post_id = ''b'', attributes = \<lparr>comment_count = 4, like_count = 0,
     title = ''Special'', published_at = ''2024-01-02'', content_teaser_text = ''t'',
     url = ''u2''\<rparr>\<rparr>"

definition post_c :: PatreonPostData where
  "post_c = \<lparr>post_id = ''c'', attributes = \<lparr>comment_count = 4, like_count = 9,
     title = ''Episode 2'', published_at = ''2024-01-03'', content_teaser_text = ''t'',
     url = ''u3''\<rparr>\<rparr>"

definition three_posts :: storage where
  "three_posts = upsertPosts [post_a, post_b, post_c] initTables"

text \<open>A remote that serves one page with a next link and fails from then on.\<close>

definition flaky_net :: network where
  "flaky_net k u = (if k = 0 then Some \<lparr>data = [post_a], links_next = Some ''next''\<rparr> else None)"

text \<open>
  A remote that answers the calls 0 to 19, the first of them with one post, and fails
  from call 20 on: the 20 fetches of the first loop succeed, the first fetch of the
  second loop fails.
\<close>

definition late_fault_net :: network where
  "late_fault_net k u =
     (if k < 20 then Some \<lparr>data = (if k = 0 then [post_a] else []), links_next = Some ''u''\<rparr>
      else None)"

text \<open>
  A remote whose pages are empty and link to \<open>u\<close>, except that the answer to call
  number 20 carries the empty string as its next link.
\<close>

definition empty_link_net :: network where
  "empty_link_net k u = Some \<lparr>data = [], links_next = (if k = 20 then Some [] else Some ''u'')\<rparr>"

definition after_empty_link_run :: storage where
  "after_empty_link_run = snd (syncInPostsFromPatreon empty_link_net 10 20 initTables)"

text \<open>
  A remote whose pages are empty and never end: the answers to the calls 0 to 19 link
  to \<open>a\<close>, those to the calls 20 to 39 to \<open>b\<close>, and all later ones to \<open>c\<close>.
\<close>

definition three_link_net :: network where
  "three_link_net k u =
     Some \<lparr>data = [], links_next = Some (if k < 20 then ''a'' else if k < 40 then ''b'' else ''c'')\<rparr>"

definition after_first_run :: storage where
  "after_first_run = snd (syncInPostsFromPatreon three_link_net 10 20 initTables)"

text \<open>The cursor of the row that \<open>getLastRun\<close> reads, if there is a row and a cursor.\<close>

definition stored_cursor :: "storage \<Rightarrow> string option" where
  "stored_cursor w = (case getLastRun w of None \<Rightarrow> None | Some r \<Rightarrow> last_next_link r)"

text \<open>
  A table of 25 rows; row \<open>i\<close> has \<open>i mod 5\<close> comments, so that many rows tie, and a
  title of \<open>i + 1\<close> letters.
\<close>

definition twenty_five_posts :: storage where
  "twenty_five_posts =
     initTables\<lparr>patreon_posts :=
       map (\<lambda>i. \<lparr>r_id = replicate (Suc i) CHR ''p'', r_title = replicate (Suc i) CHR ''t'',
                  r_published_at = ''2024-01-01'', r_comment_count = int (i mod 5),
                  r_like_count = 0, r_content_teaser_text = [], r_url = ''u''\<rparr>) [0..<25]\<rparr>"


section \<open>Record store: lemmas\<close>

lemma upsert_posts [simp]:
  "patreon_posts (upsert post w) = sql_insert_or_replace (row_of_post post) (patreon_posts w)"
  by (simp add: upsert_def)

lemma upsert_runs [simp]: "patreon_post_runs (upsert post w) = patreon_post_runs w"
  by (simp add: upsert_def)

lemma upsert_console [simp]: "console (upsert post w) = console w"
  by (simp add: upsert_def)

lemma upsert_fetched [simp]: "fetched (upsert post w) = fetched w"
  by (simp add: upsert_def)

lemma upsert_upserted [simp]: "upserted (upsert post w) = upserted w @ [post]"
  by (simp add: upsert_def)

lemma upsertPosts_runs [simp]: "patreon_post_runs (upsertPosts ps w) = patreon_post_runs w"
  by (induction ps arbitrary: w) simp_all

lemma upsertPosts_console [simp]: "console (upsertPosts ps w) = console w"
  by (induction ps arbitrary: w) simp_all

lemma upsertPosts_fetched [simp]: "fetched (upsertPosts ps w) = fetched w"
  by (induction ps arbitrary: w) simp_all

lemma upsertPosts_upserted [simp]: "upserted (upsertPosts ps w) = upserted w @ ps"
  by (induction ps arbitrary: w) simp_all

lemma upsertPosts_posts:
  "patreon_posts (upsertPosts ps w) =
     foldl (\<lambda>t p. sql_insert_or_replace (row_of_post p) t) (patreon_posts w) ps"
  by (induction ps arbitrary: w) simp_all

lemma insert_or_replace_twice:
  "sql_insert_or_replace r (sql_insert_or_replace r t) = sql_insert_or_replace r t"
  by (simp add: sql_insert_or_replace_def)

lemma insert_or_replace_distinct:
  "distinct (map r_id t) \<Longrightarrow> distinct (map r_id (sql_insert_or_replace r t))"
  by (auto simp: sql_insert_or_replace_def distinct_map_filter)

lemma find_filter_other:
  "i \<noteq> j \<Longrightarrow> find (\<lambda>x. r_id x = i) (filter (\<lambda>x. r_id x \<noteq> j) t) = find (\<lambda>x. r_id x = i) t"
  by (induction t) auto

lemma find_filter_same:
  "find (\<lambda>x. r_id x = i) (filter (\<lambda>x. r_id x \<noteq> i) t) = None"
  by (induction t) auto

lemma find_append:
  "find P (xs @ ys) = (case find P xs of None \<Rightarrow> find P ys | Some x \<Rightarrow> Some x)"
  by (induction xs) auto

lemma row_with_id_insert_or_replace:
  "row_with_id i (sql_insert_or_replace r t) = (if r_id r = i then Some r else row_with_id i t)"
  by (auto simp: row_with_id_def sql_insert_or_replace_def find_append find_filter_other
      find_filter_same split: option.splits)

lemma upsertPosts_distinct:
  "distinct (map r_id (patreon_posts w)) \<Longrightarrow> distinct (map r_id (patreon_posts (upsertPosts ps w)))"
  by (induction ps arbitrary: w) (simp_all add: insert_or_replace_distinct)

lemma upsertPosts_row_with_id:
  "row_with_id i (patreon_posts (upsertPosts ps w)) =
     (case find (\<lambda>p. post_id p = i) (rev ps) of
        Some p \<Rightarrow> Some (row_of_post p)
      | None \<Rightarrow> row_with_id i (patreon_posts w))"
proof (induction ps arbitrary: w)
  case Nil
  show ?case by simp
next
  case (Cons p ps)
  have rid: "r_id (row_of_post p) = post_id p"
    by (simp add: row_of_post_def)
  show ?case
    by (simp add: Cons.IH find_append row_with_id_insert_or_replace rid split: option.splits)
qed

lemma insert_or_replace_ids:
  "r_id ` set (sql_insert_or_replace r t) = insert (r_id r) (r_id ` set t)"
  by (auto simp: sql_insert_or_replace_def)

lemma upsertPosts_ids:
  "r_id ` set (patreon_posts (upsertPosts ps w)) = r_id ` set (patreon_posts w) \<union> post_id ` set ps"
  by (induction ps arbitrary: w) (auto simp: insert_or_replace_ids row_of_post_def)

section \<open>Claims about the record store\<close>

lemma upsertPosts_find:
  "find (\<lambda>x. r_id x = i) (patreon_posts (upsertPosts ps w)) =
     (case find (\<lambda>p. post_id p = i) (rev ps) of
        Some p \<Rightarrow>
          Some \<lparr>r_id = post_id p, r_title = title (attributes p),
                r_published_at = published_at (attributes p),
                r_comment_count = comment_count (attributes p),
                r_like_count = like_count (attributes p),
                r_content_teaser_text = content_teaser_text (attributes p),
                r_url = url (attributes p)\<rparr>
      | None \<Rightarrow> find (\<lambda>x. r_id x = i) (patreon_posts w))"
  using upsertPosts_row_with_id[of i ps w]
  by (simp add: row_with_id_def row_of_post_def split: option.splits)

text \<open>
  C4. Upsert is idempotent and keyed by id. For every record and every state, upserting
  the record a second time leaves both tables as the first upsert left them. After any
  sequence of upserts the row found under an id holds, column by column, the field
  values of the last post of the sequence with that id (last write wins), or is the
  row that was there before when the sequence has no post with that id; and if the ids
  of the table were pairwise distinct before, as the \<open>unique\<close> constraint has it from
  the empty table on, they still are (one row per id).
\<close>

theorem C4_upsert_idempotent_last_write_wins:
  "patreon_posts (upsert r (upsert r w)) = patreon_posts (upsert r w)
    \<and> patreon_post_runs (upsert r (upsert r w)) = patreon_post_runs (upsert r w)
    \<and> (distinct (map r_id (patreon_posts w)) \<longrightarrow>
         distinct (map r_id (patreon_posts (upsertPosts ps w))))
    \<and> find (\<lambda>x. r_id x = i) (patreon_posts (upsertPosts ps w)) =
        (case find (\<lambda>p. post_id p = i) (rev ps) of
           Some p \<Rightarrow>
             Some \<lparr>r_id = post_id p, r_title = title (attributes p),
                   r_published_at = published_at (attributes p),
                   r_comment_count = comment_count (attributes p),
                   r_like_count = like_count (attributes p),
                   r_content_teaser_text = content_teaser_text (attributes p),
                   r_url = url (attributes p)\<rparr>
         | None \<Rightarrow> find (\<lambda>x. r_id x = i) (patreon_posts w))
    \<and> upsertJsonPosts \<lparr>data = ps, links_next = next\<rparr> w = upsertPosts ps w"
  by (simp add: insert_or_replace_twice upsertPosts_distinct upsertPosts_find upsertJsonPosts_def)

theorem C4_witness:
  "distinct (map r_id (patreon_posts initTables))
   \<and> distinct (map r_id (patreon_posts (upsertPosts [post_a, post_a_later] initTables)))
   \<and> patreon_posts (upsert post_a (upsert post_a initTables)) = patreon_posts (upsert post_a initTables)
   \<and> find (\<lambda>x. r_id x = ''a'') (patreon_posts (upsertPosts [post_a, post_a_later] initTables))
       = Some \<lparr>r_id = ''a'', r_title = ''Episode 1'', r_published_at = ''2024-01-01'',
                r_comment_count = 5, r_like_count = 7, r_content_teaser_text = ''t'',
                r_url = ''u1''\<rparr>
   \<and> patreon_posts (upsertPosts [post_a, post_a_later] initTables)
       = [\<lparr>r_id = ''a'', r_title = ''Episode 1'', r_published_at = ''2024-01-01'',
           r_comment_count = 5, r_like_count = 7, r_content_teaser_text = ''t'',
           r_url = ''u1''\<rparr>]"
  using C4_upsert_idempotent_last_write_wins [of post_a initTables "[post_a, post_a_later]" "''a''"]
  by (simp add: initTables_def post_a_def post_a_later_def sql_insert_or_replace_def
      row_of_post_def)

section \<open>Ingestion: lemmas about the loops\<close>

lemma upsertJsonPosts_simps [simp]:
  "patreon_post_runs (upsertJsonPosts p w) = patreon_post_runs w"
  "console (upsertJsonPosts p w) = console w"
  "fetched (upsertJsonPosts p w) = fetched w"
  "upserted (upsertJsonPosts p w) = upserted w @ data p"
  by (simp_all add: upsertJsonPosts_def)

lemma storeRunStart_simps [simp]:
  "patreon_posts (storeRunStart t w) = patreon_posts w"
  "patreon_post_runs (storeRunStart t w) = sql_insert_run t (patreon_post_runs w)"
  "console (storeRunStart t w) = console w"
  "fetched (storeRunStart t w) = fetched w"
  "upserted (storeRunStart t w) = upserted w"
  by (simp_all add: storeRunStart_def)

lemma storeRunEnd_simps [simp]:
  "patreon_posts (storeRunEnd t d n l w) = patreon_posts w"
  "patreon_post_runs (storeRunEnd t d n l w) = fst (sql_update_run d n l t (patreon_post_runs w))"
  "fetched (storeRunEnd t d n l w) = fetched w"
  "upserted (storeRunEnd t d n l w) = upserted w"
  by (simp_all add: storeRunEnd_def Let_def split: prod.splits)

lemma fetch_page_runs:
  "patreon_post_runs (snd (fetch_page net rc u n w)) = patreon_post_runs w"
  by (simp add: fetch_page_def Let_def split: option.splits)

lemma fetch_page_fetched:
  "fetched (snd (fetch_page net rc u n w)) = fetched w @ [u]"
  by (simp add: fetch_page_def Let_def split: option.splits)

lemma fetch_page_upserted:
  "\<exists>ps. upserted (snd (fetch_page net rc u n w)) = upserted w @ ps
     \<and> patreon_posts (snd (fetch_page net rc u n w)) = patreon_posts (upsertPosts ps w)"
proof (cases "net (length (fetched w)) u")
  case None
  then have "upserted (snd (fetch_page net rc u n w)) = upserted w @ []
     \<and> patreon_posts (snd (fetch_page net rc u n w)) = patreon_posts (upsertPosts [] w)"
    by (simp add: fetch_page_def)
  then show ?thesis by blast
next
  case (Some posts)
  then have "upserted (snd (fetch_page net rc u n w)) = upserted w @ data posts
     \<and> patreon_posts (snd (fetch_page net rc u n w)) = patreon_posts (upsertPosts (data posts) w)"
    by (simp add: fetch_page_def Let_def upsertJsonPosts_def upsertPosts_posts)
  then show ?thesis by blast
qed

lemma fetch_loop_Suc_cases [case_names fault stop continue]:
  obtains
    e w1 where "fetch_page net rc u n w = (Inl e, w1)"
      and "fetch_loop net rc (Suc k) u n w = (Inl e, w1)"
  | c m w1 where "fetch_page net rc u n w = (Inr (c, m), w1)" and "\<not> truthy c"
      and "fetch_loop net rc (Suc k) u n w = (Inr (c, m), w1)"
  | v m w1 where "fetch_page net rc u n w = (Inr (Some v, m), w1)" and "v \<noteq> []"
      and "fetch_loop net rc (Suc k) u n w = fetch_loop net rc k v m w1"
proof (cases "fetch_page net rc u n w")
  case (Pair res w1)
  show ?thesis
  proof (cases res)
    case (Inl e)
    with Pair show ?thesis by (intro that(1)[of e w1]) simp_all
  next
    case (Inr cm)
    obtain c m where cm: "cm = (c, m)" by (cases cm)
    show ?thesis
    proof (cases "truthy c")
      case False
      with Pair Inr cm show ?thesis
        by (intro that(2)[of c m w1]) (auto simp: truthy_def split: option.splits)
    next
      case True
      then obtain v where "c = Some v" "v \<noteq> []"
        by (auto simp: truthy_def split: option.splits)
      with Pair Inr cm show ?thesis by (intro that(3)[of v m w1]) simp_all
    qed
  qed
qed

lemma fetch_loop_runs:
  "patreon_post_runs (snd (fetch_loop net rc k u n w)) = patreon_post_runs w"
proof (induction k arbitrary: u n w)
  case 0
  show ?case by simp
next
  case (Suc k)
  show ?case
  proof (cases rule: fetch_loop_Suc_cases[of net rc u n w k])
    case (fault e w1)
    with fetch_page_runs[of net rc u n w] show ?thesis by simp
  next
    case (stop c m w1)
    with fetch_page_runs[of net rc u n w] show ?thesis by simp
  next
    case (continue v m w1)
    with fetch_page_runs[of net rc u n w] Suc.IH[of v m w1] show ?thesis by simp
  qed
qed



lemma fetch_loop_first_fetch:
  "\<exists>rest. fetched (snd (fetch_loop net rc k u n w)) = fetched w @ rest
      \<and> (0 < k \<longrightarrow> rest \<noteq> [] \<and> hd rest = u)"
proof (induction k arbitrary: u n w)
  case 0
  show ?case by simp
next
  case (Suc k)
  show ?case
  proof (cases rule: fetch_loop_Suc_cases[of net rc u n w k])
    case (fault e w1)
    with fetch_page_fetched[of net rc u n w] show ?thesis by simp
  next
    case (stop c m w1)
    with fetch_page_fetched[of net rc u n w] show ?thesis by simp
  next
    case (continue v m w1)
    from Suc.IH[of v m w1] obtain rest where
      "fetched (snd (fetch_loop net rc k v m w1)) = fetched w1 @ rest" by blast
    with continue fetch_page_fetched[of net rc u n w] 
    have "fetched (snd (fetch_loop net rc (Suc k) u n w)) = fetched w @ (u # rest)" by simp
    then show ?thesis by (intro exI[of _ "u # rest"]) simp
  qed
qed

lemma upsertPosts_append: "upsertPosts (ps @ qs) w = upsertPosts qs (upsertPosts ps w)"
  by (induction ps arbitrary: w) simp_all

lemma fetch_loop_upserted:
  "\<exists>ps. upserted (snd (fetch_loop net rc k u n w)) = upserted w @ ps
     \<and> patreon_posts (snd (fetch_loop net rc k u n w)) = patreon_posts (upsertPosts ps w)"
proof (induction k arbitrary: u n w)
  case 0
  have "upserted (snd (fetch_loop net rc 0 u n w)) = upserted w @ []
     \<and> patreon_posts (snd (fetch_loop net rc 0 u n w)) = patreon_posts (upsertPosts [] w)"
    by simp
  then show ?case by blast
next
  case (Suc k)
  from fetch_page_upserted[of net rc u n w] obtain ps where
    ps: "upserted (snd (fetch_page net rc u n w)) = upserted w @ ps"
        "patreon_posts (snd (fetch_page net rc u n w)) = patreon_posts (upsertPosts ps w)"
    by blast
  show ?case
  proof (cases rule: fetch_loop_Suc_cases[of net rc u n w k])
    case (fault e w1)
    with ps show ?thesis by auto
  next
    case (stop c m w1)
    with ps show ?thesis by auto
  next
    case (continue v m w1)
    from Suc.IH[of v m w1] obtain qs where
      qs: "upserted (snd (fetch_loop net rc k v m w1)) = upserted w1 @ qs"
          "patreon_posts (snd (fetch_loop net rc k v m w1)) = patreon_posts (upsertPosts qs w1)"
      by blast
    have "patreon_posts (upsertPosts qs w1) = patreon_posts (upsertPosts qs (upsertPosts ps w))"
      using ps(2) continue(1) by (simp add: upsertPosts_posts)
    with continue ps qs
    have "upserted (snd (fetch_loop net rc (Suc k) u n w)) = upserted w @ (ps @ qs)
     \<and> patreon_posts (snd (fetch_loop net rc (Suc k) u n w)) = patreon_posts (upsertPosts (ps @ qs) w)"
      by (simp add: upsertPosts_append)
    then show ?thesis by blast
  qed
qed

section \<open>Ingestion: the fetch budget\<close>

lemma storeRunEnd_console:
  "console (storeRunEnd t d n l w) =
     (if \<forall>r \<in> set (patreon_post_runs w). started_at r \<noteq> t
      then console w @ [ErrorLastRunNotUpdated] else console w)"
  by (auto simp: storeRunEnd_def sql_update_run_def Let_def filter_empty_conv)








section \<open>Run ledger: a failed finalising update\<close>

text \<open>
  C9. If the \<open>update\<close> of \<open>storeRunEnd\<close> writes no row, the fault is only reported
  on the console: \<open>storeRunEnd\<close> returns, and the state it returns differs from the
  one it was given in the console alone. In particular the table of posts, with every
  record upserted by the two loops of the run, is as it was before the failed update.
\<close>

theorem C9_run_end_fault_isolated:
  assumes "snd (sql_update_run duration retrieved link startTime (patreon_post_runs w)) = 0"
  shows "storeRunEnd startTime duration retrieved link w
           = w\<lparr>console := console w @ [ErrorLastRunNotUpdated]\<rparr>
    \<and> patreon_posts (storeRunEnd startTime duration retrieved link w) = patreon_posts w
    \<and> upserted (storeRunEnd startTime duration retrieved link w) = upserted w"
proof -
  from assms have none: "\<forall>r \<in> set (patreon_post_runs w). started_at r \<noteq> startTime"
    by (auto simp: sql_update_run_def filter_empty_conv)
  then have "map (\<lambda>r. if started_at r = startTime
                then r\<lparr>duration_seconds := Some duration, posts_retrieved := Some retrieved,
                       last_next_link := link\<rparr>
                else r) (patreon_post_runs w) = patreon_post_runs w"
    by (induction "patreon_post_runs w") (auto simp: map_idI)
  with assms show ?thesis
    by (simp add: storeRunEnd_def sql_update_run_def Let_def)
qed

theorem C9_witness:
  "snd (sql_update_run 2 3 None 7 (patreon_post_runs three_posts)) = 0
   \<and> patreon_posts (storeRunEnd 7 2 3 None three_posts) = patreon_posts three_posts
   \<and> console (storeRunEnd 7 2 3 None three_posts) = [ErrorLastRunNotUpdated]"
  using C9_run_end_fault_isolated [of 2 3 None 7 three_posts]
  by (simp add: sql_update_run_def three_posts_def initTables_def)

section \<open>Ingestion: one run\<close>

lemma sync_cases [case_names faultA skipB faultB finished]:
  obtains
    e wA where "phaseA net (storeRunStart s w) = (Inl e, wA)"
      and "syncInPostsFromPatreon net s t w = (Inl e, wA)"
  | c m wA where "phaseA net (storeRunStart s w) = (Inr (c, m), wA)"
      and "\<not> truthy (archive_start (getLastRun w) c)"
      and "syncInPostsFromPatreon net s t w
             = (Inr (), storeRunEnd s (of_int (t - s) / 1000) m None wA)"
  | c m wA v e wB where "phaseA net (storeRunStart s w) = (Inr (c, m), wA)"
      and "archive_start (getLastRun w) c = Some v" and "v \<noteq> []"
      and "phaseB net v m wA = (Inl e, wB)"
      and "syncInPostsFromPatreon net s t w = (Inl e, wB)"
  | c m wA v cur n wB where "phaseA net (storeRunStart s w) = (Inr (c, m), wA)"
      and "archive_start (getLastRun w) c = Some v" and "v \<noteq> []"
      and "phaseB net v m wA = (Inr (cur, n), wB)"
      and "syncInPostsFromPatreon net s t w
             = (Inr (), storeRunEnd s (of_int (t - s) / 1000) n cur wB)"
proof (cases "phaseA net (storeRunStart s w)")
  case (Pair resA wA)
  show ?thesis
  proof (cases resA)
    case (Inl e)
    with Pair show ?thesis
      by (intro that(1)[of e wA]) (simp_all add: syncInPostsFromPatreon_def Let_def)
  next
    case (Inr cm)
    obtain c m where cm: "cm = (c, m)" by (cases cm)
    show ?thesis
    proof (cases "truthy (archive_start (getLastRun w) c)")
      case False
      with Pair Inr cm show ?thesis
        by (intro that(2)[of c m wA])
          (auto simp: syncInPostsFromPatreon_def Let_def truthy_def split: option.splits)
    next
      case True
      then obtain v where v: "archive_start (getLastRun w) c = Some v" "v \<noteq> []"
        by (auto simp: truthy_def split: option.splits)
      obtain resB wB where B: "phaseB net v m wA = (resB, wB)" by (cases "phaseB net v m wA")
      show ?thesis
      proof (cases resB)
        case (Inl e)
        with Pair Inr cm v B show ?thesis
          by (intro that(3)[of c m wA v e wB]) (simp_all add: syncInPostsFromPatreon_def Let_def)
      next
        case (Inr curn)
        obtain cur n where curn: "curn = (cur, n)" by (cases curn)
        with Pair \<open>resA = Inr cm\<close> cm v B Inr show ?thesis
          by (intro that(4)[of c m wA v cur n wB]) (simp_all add: syncInPostsFromPatreon_def Let_def)
      qed
    qed
  qed
qed

lemma fetch_page_None:
  assumes "net (length (fetched w)) u = None"
  shows "fetch_page net rc u n w = (Inl NetworkFault, w\<lparr>fetched := fetched w @ [u]\<rparr>)"
  using assms by (simp add: fetch_page_def)

lemma fetch_page_Some:
  assumes "net (length (fetched w)) u = Some posts"
  shows "\<exists>w3. fetch_page net rc u n w = (Inr (links_next posts, n + length (data posts)), w3)
     \<and> fetched w3 = fetched w @ [u] \<and> upserted w3 = upserted w @ data posts"
  using assms by (simp add: fetch_page_def Let_def)

text \<open>
  What the trace of a loop says about each fetch it issued: a fetch that failed is the
  last one and makes the loop raise, and the posts of a fetch that succeeded are among
  the upserts of the loop.
\<close>

lemma fetch_loop_trace:
  assumes "length (fetched w) \<le> j" and "j < length (fetched (snd (fetch_loop net rc k u n w)))"
  shows "(net j (fetched (snd (fetch_loop net rc k u n w)) ! j) = None \<longrightarrow>
            fst (fetch_loop net rc k u n w) = Inl NetworkFault
            \<and> Suc j = length (fetched (snd (fetch_loop net rc k u n w))))
       \<and> (\<forall>posts. net j (fetched (snd (fetch_loop net rc k u n w)) ! j) = Some posts \<longrightarrow>
            set (data posts)
              \<subseteq> set (drop (length (upserted w)) (upserted (snd (fetch_loop net rc k u n w)))))"
  using assms
proof (induction k arbitrary: u n w)
  case 0
  then show ?case by simp
next
  case (Suc k)
  let ?w' = "snd (fetch_loop net rc (Suc k) u n w)"
  let ?len = "length (fetched w)"
  show ?case
  proof (cases "net ?len u")
    case None
    from fetch_page_None[where net = net and w = w and u = u and rc = rc and n = n, OF None]
    have loop: "fetch_loop net rc (Suc k) u n w = (Inl NetworkFault, w\<lparr>fetched := fetched w @ [u]\<rparr>)"
      by simp
    with Suc.prems have "j = ?len" by simp
    with loop None show ?thesis by simp
  next
    case (Some posts)
    from fetch_page_Some[where net = net and w = w and u = u and rc = rc and n = n, OF Some]
    obtain w3 where
      page: "fetch_page net rc u n w = (Inr (links_next posts, n + length (data posts)), w3)"
      and f3: "fetched w3 = fetched w @ [u]"
      and u3: "upserted w3 = upserted w @ data posts" by blast
    show ?thesis
    proof (cases "truthy (links_next posts)")
      case False
      with page have loop: "fetch_loop net rc (Suc k) u n w
          = (Inr (links_next posts, n + length (data posts)), w3)"
        by (auto simp: truthy_def split: option.splits)
      with Suc.prems f3 have "j = ?len" by simp
      with loop Some f3 u3 show ?thesis by simp
    next
      case True
      then obtain v where v: "links_next posts = Some v" "v \<noteq> []"
        by (auto simp: truthy_def split: option.splits)
      let ?m = "n + length (data posts)"
      let ?w'' = "snd (fetch_loop net rc k v ?m w3)"
      from page v have loop: "fetch_loop net rc (Suc k) u n w = fetch_loop net rc k v ?m w3"
        by simp
      from fetch_loop_first_fetch[of net rc k v ?m w3] obtain rest where
        rest: "fetched ?w'' = fetched w3 @ rest" by blast
      from fetch_loop_upserted[of net rc k v ?m w3] obtain qs where
        qs: "upserted ?w'' = upserted w3 @ qs" by blast
      have new: "drop (length (upserted w)) (upserted ?w'') = data posts @ qs"
        using qs u3 by simp
      have new3: "drop (length (upserted w3)) (upserted ?w'') = qs"
        using qs by simp
      show ?thesis
      proof (cases "j = ?len")
        case True
        have "fetched ?w'' ! j = u" using rest f3 True by (simp add: nth_append)
        with loop Some True new show ?thesis by simp
      next
        case False
        with Suc.prems(1) f3 have lo: "length (fetched w3) \<le> j" by simp
        from Suc.prems(2) loop have hi: "j < length (fetched ?w'')" by simp
        from Suc.IH[OF lo hi] loop new new3 show ?thesis by auto
      qed
    qed
  qed
qed

lemma phaseA_upserted:
  "\<exists>ps. upserted (snd (phaseA net w)) = upserted w @ ps
     \<and> patreon_posts (snd (phaseA net w)) = patreon_posts (upsertPosts ps w)"
  unfolding phaseA_def by (rule fetch_loop_upserted)

lemma phaseB_upserted:
  "\<exists>ps. upserted (snd (phaseB net u n w)) = upserted w @ ps
     \<and> patreon_posts (snd (phaseB net u n w)) = patreon_posts (upsertPosts ps w)"
  unfolding phaseB_def by (rule fetch_loop_upserted)

lemma upsertPosts_posts_cong:
  "patreon_posts w = patreon_posts v \<Longrightarrow>
     patreon_posts (upsertPosts ps w) = patreon_posts (upsertPosts ps v)"
  by (simp add: upsertPosts_posts)

lemma sync_upserted:
  "\<exists>ps. upserted (snd (syncInPostsFromPatreon net s t w)) = upserted w @ ps
     \<and> patreon_posts (snd (syncInPostsFromPatreon net s t w)) = patreon_posts (upsertPosts ps w)"
proof -
  let ?w1 = "storeRunStart s w"
  from phaseA_upserted[of net ?w1] obtain ps where
    ps: "upserted (snd (phaseA net ?w1)) = upserted w @ ps"
        "patreon_posts (snd (phaseA net ?w1)) = patreon_posts (upsertPosts ps w)"
    by (auto simp: upsertPosts_posts)
  show ?thesis
  proof (cases rule: sync_cases[of net s w t])
    case (faultA e wA)
    with ps show ?thesis by auto
  next
    case (skipB c m wA)
    with ps show ?thesis by auto
  next
    case (faultB c m wA v e wB)
    from phaseB_upserted[of net v m wA] faultB(4) obtain qs where
      qs: "upserted wB = upserted wA @ qs"
          "patreon_posts wB = patreon_posts (upsertPosts qs wA)" by auto
    have "patreon_posts (upsertPosts qs wA) = patreon_posts (upsertPosts qs (upsertPosts ps w))"
      using ps(2) faultB(1) by (intro upsertPosts_posts_cong) simp
    with faultB ps qs
    have "upserted (snd (syncInPostsFromPatreon net s t w)) = upserted w @ (ps @ qs)
     \<and> patreon_posts (snd (syncInPostsFromPatreon net s t w))
          = patreon_posts (upsertPosts (ps @ qs) w)"
      by (simp add: upsertPosts_append)
    then show ?thesis by blast
  next
    case (finished c m wA v cur n wB)
    from phaseB_upserted[of net v m wA] finished(4) obtain qs where
      qs: "upserted wB = upserted wA @ qs"
          "patreon_posts wB = patreon_posts (upsertPosts qs wA)" by auto
    have "patreon_posts (upsertPosts qs wA) = patreon_posts (upsertPosts qs (upsertPosts ps w))"
      using ps(2) finished(1) by (intro upsertPosts_posts_cong) simp
    with finished ps qs
    have "upserted (snd (syncInPostsFromPatreon net s t w)) = upserted w @ (ps @ qs)
     \<and> patreon_posts (snd (syncInPostsFromPatreon net s t w))
          = patreon_posts (upsertPosts (ps @ qs) w)"
      by (simp add: upsertPosts_append)
    then show ?thesis by blast
  qed
qed

lemma phaseA_runs: "patreon_post_runs (snd (phaseA net w)) = patreon_post_runs w"
  unfolding phaseA_def by (rule fetch_loop_runs)

lemma phaseB_runs: "patreon_post_runs (snd (phaseB net u n w)) = patreon_post_runs w"
  unfolding phaseB_def by (rule fetch_loop_runs)

lemma sync_fault_runs:
  assumes "syncInPostsFromPatreon net s t w = (Inl e, w')"
  shows "patreon_post_runs w' = sql_insert_run s (patreon_post_runs w)"
proof (cases rule: sync_cases[of net s w t])
  case (faultA e wA)
  with assms phaseA_runs[of net "storeRunStart s w"] show ?thesis by simp
next
  case (skipB c m wA)
  with assms show ?thesis by simp
next
  case (faultB c m wA v e wB)
  with assms phaseA_runs[of net "storeRunStart s w"] phaseB_runs[of net v m wA]
  show ?thesis by simp
next
  case (finished c m wA v cur n wB)
  with assms show ?thesis by simp
qed

lemma phaseA_prefix: "\<exists>rest. fetched (snd (phaseA net w)) = fetched w @ rest"
  using fetch_loop_first_fetch[of net True 20 initialApiUrl 0 w] by (auto simp: phaseA_def)

lemma phaseB_prefix: "\<exists>rest. fetched (snd (phaseB net u n w)) = fetched w @ rest"
  using fetch_loop_first_fetch[of net False 20 u n w] by (auto simp: phaseB_def)

text \<open>The same for a whole run.\<close>

lemma sync_trace:
  assumes lo: "length (fetched w) \<le> j"
    and hi: "j < length (fetched (snd (syncInPostsFromPatreon net s t w)))"
  shows "(net j (fetched (snd (syncInPostsFromPatreon net s t w)) ! j) = None \<longrightarrow>
            fst (syncInPostsFromPatreon net s t w) = Inl NetworkFault
            \<and> Suc j = length (fetched (snd (syncInPostsFromPatreon net s t w))))
       \<and> (\<forall>posts. net j (fetched (snd (syncInPostsFromPatreon net s t w)) ! j) = Some posts \<longrightarrow>
            set (data posts)
              \<subseteq> set (drop (length (upserted w))
                         (upserted (snd (syncInPostsFromPatreon net s t w)))))"
proof -
  let ?w1 = "storeRunStart s w"
  let ?wA = "snd (phaseA net ?w1)"
  have traceA: "length (fetched w) \<le> i \<Longrightarrow> i < length (fetched ?wA) \<Longrightarrow>
      (net i (fetched ?wA ! i) = None \<longrightarrow>
         fst (phaseA net ?w1) = Inl NetworkFault \<and> Suc i = length (fetched ?wA))
      \<and> (\<forall>posts. net i (fetched ?wA ! i) = Some posts \<longrightarrow>
            set (data posts) \<subseteq> set (drop (length (upserted w)) (upserted ?wA)))" for i
    using fetch_loop_trace[of ?w1 i net True 20 initialApiUrl 0] by (simp add: phaseA_def)
  from phaseA_upserted[of net ?w1] obtain ps where
    ps: "upserted ?wA = upserted w @ ps" by auto
  have second: ?thesis
    if A: "phaseA net ?w1 = (Inr (c, m), wA)"
      and sync: "syncInPostsFromPatreon net s t w = (res, wB)"
      and wB: "wB = snd (phaseB net v m wA)"
      and res: "fst (phaseB net v m wA) = Inl NetworkFault \<Longrightarrow> res = Inl NetworkFault"
    for c m wA v res wB
  proof -
    from A have fstA: "fst (phaseA net ?w1) = Inr (c, m)" and sndA: "snd (phaseA net ?w1) = wA"
      by simp_all
    note tA = traceA[unfolded fstA sndA]
    note psA = ps[unfolded sndA]
    from phaseB_prefix[of net v m wA] wB obtain rest where
      rest: "fetched wB = fetched wA @ rest" by auto
    from phaseB_upserted[of net v m wA] wB obtain qs where
      qs: "upserted wB = upserted wA @ qs" by auto
    have newB: "drop (length (upserted w)) (upserted wB) = ps @ qs"
      and newA: "drop (length (upserted w)) (upserted wA) = ps"
      and newA': "drop (length (upserted wA)) (upserted wB) = qs"
      using qs psA by simp_all
    show ?thesis
    proof (cases "j < length (fetched wA)")
      case True
      then have nth: "fetched wB ! j = fetched wA ! j" using rest by (simp add: nth_append)
      from tA[OF lo True] newA
      have "net j (fetched wA ! j) \<noteq> None"
        and "\<forall>posts. net j (fetched wA ! j) = Some posts \<longrightarrow> set (data posts) \<subseteq> set ps"
        by auto
      with nth sync newB show ?thesis by auto
    next
      case False
      then have lo': "length (fetched wA) \<le> j" by simp
      from hi sync wB have hi': "j < length (fetched (snd (fetch_loop net False 20 v m wA)))"
        by (simp add: phaseB_def)
      from fetch_loop_trace[OF lo' hi'] wB newA' res
      have "(net j (fetched wB ! j) = None \<longrightarrow> res = Inl NetworkFault \<and> Suc j = length (fetched wB))
        \<and> (\<forall>posts. net j (fetched wB ! j) = Some posts \<longrightarrow> set (data posts) \<subseteq> set qs)"
        by (simp add: phaseB_def)
      with sync newB show ?thesis by auto
    qed
  qed
  show ?thesis
  proof (cases rule: sync_cases[of net s w t])
    case (faultA e wA)
    then have fstA: "fst (phaseA net ?w1) = Inl e" and sndA: "snd (phaseA net ?w1) = wA"
      by simp_all
    from hi faultA(2) have hiA: "j < length (fetched wA)" by simp
    from traceA[unfolded fstA sndA, OF lo hiA] faultA(2) show ?thesis by auto
  next
    case (skipB c m wA)
    then have fstA: "fst (phaseA net ?w1) = Inr (c, m)" and sndA: "snd (phaseA net ?w1) = wA"
      by simp_all
    from hi skipB(3) have hiA: "j < length (fetched wA)" by simp
    from traceA[unfolded fstA sndA, OF lo hiA] skipB(3) show ?thesis by auto
  next
    case (faultB c m wA v e wB)
    show ?thesis
    proof (rule second[OF faultB(1) faultB(5)])
      show "wB = snd (phaseB net v m wA)" using faultB(4) by simp
      show "Inl e = Inl NetworkFault" if "fst (phaseB net v m wA) = Inl NetworkFault"
        using that faultB(4) by simp
    qed
  next
    case (finished c m wA v cur n wB)
    let ?wE = "storeRunEnd s (of_int (t - s) / 1000) n cur wB"
    have same: "fetched ?wE = fetched wB" "upserted ?wE = upserted wB" by simp_all
    have inner: "(net j (fetched wB ! j) = None \<longrightarrow>
            (Inr () :: error + unit) = Inl NetworkFault \<and> Suc j = length (fetched wB))
       \<and> (\<forall>posts. net j (fetched wB ! j) = Some posts \<longrightarrow>
            set (data posts) \<subseteq> set (drop (length (upserted w)) (upserted wB)))"
    proof -
      from phaseB_prefix[of net v m wA] finished(4) obtain rest where
        rest: "fetched wB = fetched wA @ rest" by auto
      from phaseB_upserted[of net v m wA] finished(4) obtain qs where
        qs: "upserted wB = upserted wA @ qs" by auto
      from finished(1) have fstA: "fst (phaseA net ?w1) = Inr (c, m)"
        and sndA: "snd (phaseA net ?w1) = wA" by simp_all
      note tA = traceA[unfolded fstA sndA]
      note psA = ps[unfolded sndA]
      have newB: "drop (length (upserted w)) (upserted wB) = ps @ qs"
        and newA: "drop (length (upserted w)) (upserted wA) = ps"
        and newA': "drop (length (upserted wA)) (upserted wB) = qs"
        using qs psA by simp_all
      show ?thesis
      proof (cases "j < length (fetched wA)")
        case True
        then have nth: "fetched wB ! j = fetched wA ! j" using rest by (simp add: nth_append)
        from tA[OF lo True] newA
        have "net j (fetched wA ! j) \<noteq> None"
          and "\<forall>posts. net j (fetched wA ! j) = Some posts \<longrightarrow> set (data posts) \<subseteq> set ps"
          by auto
        with nth newB show ?thesis by auto
      next
        case False
        then have lo': "length (fetched wA) \<le> j" by simp
        from hi finished(4,5) have hi': "j < length (fetched (snd (fetch_loop net False 20 v m wA)))"
          by (simp add: phaseB_def)
        from fetch_loop_trace[OF lo' hi'] finished(4) newA'
        have "net j (fetched wB ! j) \<noteq> None
          \<and> (\<forall>posts. net j (fetched wB ! j) = Some posts \<longrightarrow> set (data posts) \<subseteq> set qs)"
          by (auto simp: phaseB_def)
        with newB show ?thesis by auto
      qed
    qed
    with finished(5) same show ?thesis by simp
  qed
qed

text \<open>
  C3 (as amended). The source catches nothing, so a fault of \<open>fetch\<close> or \<open>json\<close>
  ends the whole run, not only the loop it happens in. If some fetch issued by a run,
  in the first loop or in the second, fails, then the run raises; that fetch is the
  last fetch of the run; the row that \<open>storeRunStart\<close> inserted is the last row of the
  ledger and is still incomplete (duration, posts retrieved and resume cursor are
  NULL); and the table of posts holds every upsert made before the fault: it is the
  old table with the upserts of the run applied in order, and the id of every post of
  every page fetched before the fault is in it.
\<close>

theorem C3_fault_aborts_run:
  assumes "length (fetched w) \<le> j"
    and "j < length (fetched (snd (syncInPostsFromPatreon net startTime endTime w)))"
    and "net j (fetched (snd (syncInPostsFromPatreon net startTime endTime w)) ! j) = None"
  shows "fst (syncInPostsFromPatreon net startTime endTime w) = Inl NetworkFault
    \<and> Suc j = length (fetched (snd (syncInPostsFromPatreon net startTime endTime w)))
    \<and> patreon_post_runs (snd (syncInPostsFromPatreon net startTime endTime w))
        = patreon_post_runs w @
           [\<lparr>started_at = startTime, duration_seconds = None, posts_retrieved = None,
             last_next_link = None\<rparr>]
    \<and> (\<exists>ps. upserted (snd (syncInPostsFromPatreon net startTime endTime w)) = upserted w @ ps
           \<and> patreon_posts (snd (syncInPostsFromPatreon net startTime endTime w))
               = patreon_posts (upsertPosts ps w))
    \<and> (\<forall>i posts. length (fetched w) \<le> i \<and> i < j
           \<and> net i (fetched (snd (syncInPostsFromPatreon net startTime endTime w)) ! i) = Some posts
         \<longrightarrow> post_id ` set (data posts)
               \<subseteq> r_id ` set (patreon_posts (snd (syncInPostsFromPatreon net startTime endTime w))))"
proof -
  let ?run = "syncInPostsFromPatreon net startTime endTime w"
  from sync_trace[OF assms(1,2)] assms(3)
  have raised: "fst ?run = Inl NetworkFault" and last: "Suc j = length (fetched (snd ?run))"
    by simp_all
  then have "?run = (Inl NetworkFault, snd ?run)" by (metis prod.collapse)
  from sync_fault_runs[OF this]
  have ledger: "patreon_post_runs (snd ?run) = patreon_post_runs w @
           [\<lparr>started_at = startTime, duration_seconds = None, posts_retrieved = None,
             last_next_link = None\<rparr>]"
    by (simp add: sql_insert_run_def)
  from sync_upserted[of net startTime endTime w] obtain ps where
    ps: "upserted (snd ?run) = upserted w @ ps"
        "patreon_posts (snd ?run) = patreon_posts (upsertPosts ps w)" by blast
  have stored: "post_id ` set (data posts) \<subseteq> r_id ` set (patreon_posts (snd ?run))"
    if "length (fetched w) \<le> i" "i < j" "net i (fetched (snd ?run) ! i) = Some posts"
    for i posts
  proof -
    from that(2) assms(2) have "i < length (fetched (snd ?run))" by simp
    from sync_trace[OF that(1) this] that(3) ps(1)
    have "set (data posts) \<subseteq> set ps" by simp
    then show ?thesis using ps(2) by (auto simp: upsertPosts_ids)
  qed
  from raised last ledger ps stored show ?thesis by blast
qed

lemma late_fault_run:
  "syncInPostsFromPatreon late_fault_net 10 20 initTables =
     (Inl NetworkFault,
      \<lparr>patreon_posts = [row_of_post post_a],
       patreon_post_runs = [\<lparr>started_at = 10, duration_seconds = None, posts_retrieved = None,
         last_next_link = None\<rparr>],
       console = map LogRetrievedRecent (replicate 20 1),
       fetched = initialApiUrl # replicate 20 ''u'',
       upserted = [post_a]\<rparr>)"
  by code_simp

theorem C3_witness:
  "length (fetched initTables) \<le> 20
   \<and> length (fetched (snd (syncInPostsFromPatreon late_fault_net 10 20 initTables))) = 21
   \<and> late_fault_net 20 (fetched (snd (syncInPostsFromPatreon late_fault_net 10 20 initTables)) ! 20)
       = None
   \<and> late_fault_net 0 (fetched (snd (syncInPostsFromPatreon late_fault_net 10 20 initTables)) ! 0)
       = Some \<lparr>data = [post_a], links_next = Some ''u''\<rparr>
   \<and> fst (syncInPostsFromPatreon late_fault_net 10 20 initTables) = Inl NetworkFault
   \<and> patreon_post_runs (snd (syncInPostsFromPatreon late_fault_net 10 20 initTables))
       = [\<lparr>started_at = 10, duration_seconds = None, posts_retrieved = None,
            last_next_link = None\<rparr>]
   \<and> post_id ` set [post_a]
       \<subseteq> r_id ` set (patreon_posts (snd (syncInPostsFromPatreon late_fault_net 10 20 initTables)))"
proof -
  let ?w' = "snd (syncInPostsFromPatreon late_fault_net 10 20 initTables)"
  have lo: "length (fetched initTables) \<le> 20" by (simp add: initTables_def)
  have len: "length (fetched ?w') = 21" using late_fault_run by simp
  then have hi: "20 < length (fetched ?w')" by simp
  have failed: "late_fault_net 20 (fetched ?w' ! 20) = None" by (simp add: late_fault_net_def)
  have first: "late_fault_net 0 (fetched ?w' ! 0) = Some \<lparr>data = [post_a], links_next = Some ''u''\<rparr>"
    by (simp add: late_fault_net_def)
  note inst = C3_fault_aborts_run [OF lo hi failed]
  from inst have raised: "fst (syncInPostsFromPatreon late_fault_net 10 20 initTables) = Inl NetworkFault"
    by blast
  from inst have ledger: "patreon_post_runs ?w'
       = [\<lparr>started_at = 10, duration_seconds = None, posts_retrieved = None,
            last_next_link = None\<rparr>]"
    by (simp add: initTables_def)
  from inst have "\<forall>i posts. length (fetched initTables) \<le> i \<and> i < 20
           \<and> late_fault_net i (fetched ?w' ! i) = Some posts
         \<longrightarrow> post_id ` set (data posts) \<subseteq> r_id ` set (patreon_posts ?w')"
    by blast
  then have "length (fetched initTables) \<le> 0 \<and> (0::nat) < 20
           \<and> late_fault_net 0 (fetched ?w' ! 0) = Some \<lparr>data = [post_a], links_next = Some ''u''\<rparr>
         \<longrightarrow> post_id ` set (data \<lparr>data = [post_a], links_next = Some ''u''\<rparr>)
               \<subseteq> r_id ` set (patreon_posts ?w')"
    by blast
  with first have stored: "post_id ` set [post_a] \<subseteq> r_id ` set (patreon_posts ?w')"
    by (simp add: initTables_def)
  from lo len failed first raised ledger stored show ?thesis by blast
qed

lemma flaky_run:
  "syncInPostsFromPatreon flaky_net 10 20 initTables =
     (Inl NetworkFault,
      \<lparr>patreon_posts = [row_of_post post_a],
       patreon_post_runs = [\<lparr>started_at = 10, duration_seconds = None, posts_retrieved = None,
         last_next_link = None\<rparr>],
       console = [LogRetrievedRecent 1],
       fetched = [initialApiUrl, ''next''],
       upserted = [post_a]\<rparr>)"
  by code_simp

text \<open>
  The claim as stated fails. In the first run below the first fetch of the second loop
  faults, after the 20 fetches of the first loop; in the second run below the second
  fetch of the first loop faults. Each run raises, with its ledger row left incomplete,
  instead of finalising.
\<close>

theorem C3_counterexample:
  "fst (syncInPostsFromPatreon late_fault_net 10 20 initTables) = Inl NetworkFault
   \<and> length (fetched (snd (syncInPostsFromPatreon late_fault_net 10 20 initTables))) = 21
   \<and> map duration_seconds (patreon_post_runs (snd (syncInPostsFromPatreon late_fault_net 10 20 initTables)))
       = [None]
   \<and> map posts_retrieved (patreon_post_runs (snd (syncInPostsFromPatreon late_fault_net 10 20 initTables)))
       = [None]
   \<and> fst (syncInPostsFromPatreon flaky_net 10 20 initTables) = Inl NetworkFault
   \<and> patreon_posts (snd (syncInPostsFromPatreon flaky_net 10 20 initTables)) = [row_of_post post_a]
   \<and> map duration_seconds (patreon_post_runs (snd (syncInPostsFromPatreon flaky_net 10 20 initTables)))
       = [None]
   \<and> map posts_retrieved (patreon_post_runs (snd (syncInPostsFromPatreon flaky_net 10 20 initTables)))
       = [None]"
  using late_fault_run flaky_run by simp

section \<open>Ingestion: resuming at the stored cursor\<close>

lemma getLastRun_snoc:
  assumes "patreon_post_runs w = rs @ [r]" and "\<forall>x \<in> set rs. started_at x < started_at r"
  shows "getLastRun w = Some r"
proof -
  have fold_max: "\<And>b. (\<forall>x \<in> set xs. started_at x < started_at r) \<Longrightarrow> started_at b < started_at r \<or> b = r \<Longrightarrow>
     foldl (\<lambda>best x. if started_at best < started_at x then x else best) b (xs @ [r]) = r" for xs
    by (induction xs) auto
  show ?thesis
  proof (cases rs)
    case Nil
    with assms show ?thesis by (simp add: getLastRun_def)
  next
    case (Cons a as)
    with assms fold_max[of as a] show ?thesis by (simp add: getLastRun_def)
  qed
qed

lemma sql_update_run_snoc:
  assumes "\<forall>x \<in> set rs. started_at x \<noteq> s"
  shows "fst (sql_update_run d n l s (sql_insert_run s rs))
           = rs @ [\<lparr>started_at = s, duration_seconds = Some d, posts_retrieved = Some n,
                    last_next_link = l\<rparr>]"
  using assms by (simp add: sql_update_run_def sql_insert_run_def map_idI)

lemma sync_finished_ledger:
  assumes "\<forall>x \<in> set (patreon_post_runs w). started_at x \<noteq> s"
    and "syncInPostsFromPatreon net s t w = (Inr (), w')"
  shows "\<exists>n l. patreon_post_runs w' = patreon_post_runs w @
           [\<lparr>started_at = s, duration_seconds = Some (of_int (t - s) / 1000),
             posts_retrieved = Some n, last_next_link = l\<rparr>]"
proof (cases rule: sync_cases[of net s w t])
  case (faultA e wA)
  with assms show ?thesis by simp
next
  case (skipB c m wA)
  with phaseA_runs[of net "storeRunStart s w"] assms sql_update_run_snoc[OF assms(1)]
  show ?thesis by auto
next
  case (faultB c m wA v e wB)
  with assms show ?thesis by simp
next
  case (finished c m wA v cur n wB)
  with phaseA_runs[of net "storeRunStart s w"] phaseB_runs[of net v m wA]
    assms sql_update_run_snoc[OF assms(1)]
  show ?thesis by auto
qed

lemma sync_phaseB_first_fetch:
  assumes "getLastRun w = Some r" and "last_next_link r = Some C" and "C \<noteq> []"
    and "phaseA net (storeRunStart s w) = (Inr (cur, m), wA)"
  shows "take (Suc (length (fetched wA))) (fetched (snd (syncInPostsFromPatreon net s t w)))
           = fetched wA @ [C]"
proof -
  have start: "archive_start (getLastRun w) cur = Some C"
    using assms by (simp add: archive_start_def truthy_def)
  from fetch_loop_first_fetch[of net False 20 C m wA] obtain rest where
    rest: "fetched (snd (phaseB net C m wA)) = fetched wA @ rest" "rest \<noteq> []" "hd rest = C"
    by (auto simp: phaseB_def)
  then have tk: "take (Suc (length (fetched wA))) (fetched (snd (phaseB net C m wA)))
      = fetched wA @ [C]"
    by (cases rest) simp_all
  show ?thesis
  proof (cases rule: sync_cases[of net s w t])
    case (faultA e wA')
    with assms show ?thesis by simp
  next
    case (skipB c m' wA')
    with assms start show ?thesis by (simp add: truthy_def)
  next
    case (faultB c m' wA' v e wB)
    with assms start tk show ?thesis by simp
  next
    case (finished c m' wA' v cur' n wB)
    with assms start tk show ?thesis by simp
  qed
qed

text \<open>
  C2 (as amended). The run reads the last row of the ledger from the state it is
  given, before \<open>storeRunStart\<close> writes. Let run K, started later than every run in
  the ledger, finalise, and let the row then read by \<open>getLastRun\<close> carry the cursor
  \<open>C\<close>, not null and not the empty string. Then that row is the row of run K, and if
  the first loop of run K+1 ends without a fault, the fetch that follows the fetches
  of the first loop (the first fetch of the second loop) is issued at \<open>C\<close>.
\<close>

theorem C2_resume_at_stored_cursor:
  assumes "\<forall>x \<in> set (patreon_post_runs w0). started_at x < sK"
    and "syncInPostsFromPatreon net sK tK w0 = (Inr (), w1)"
    and "getLastRun w1 = Some r" and "last_next_link r = Some C" and "C \<noteq> []"
    and "phaseA net (storeRunStart s w1) = (Inr (cur, m), wA)"
  shows "started_at r = sK
    \<and> archive_start (getLastRun w1) cur = Some C
    \<and> take (Suc (length (fetched wA))) (fetched (snd (syncInPostsFromPatreon net s t w1)))
         = fetched wA @ [C]"
proof -
  from assms(1) have ne: "\<forall>x \<in> set (patreon_post_runs w0). started_at x \<noteq> sK" by auto
  from sync_finished_ledger[OF ne assms(2)] obtain n l where
    led: "patreon_post_runs w1 = patreon_post_runs w0 @
           [\<lparr>started_at = sK, duration_seconds = Some (of_int (tK - sK) / 1000),
             posts_retrieved = Some n, last_next_link = l\<rparr>]" by blast
  have "getLastRun w1 = Some \<lparr>started_at = sK, duration_seconds = Some (of_int (tK - sK) / 1000),
             posts_retrieved = Some n, last_next_link = l\<rparr>"
    using assms(1) by (intro getLastRun_snoc[OF led]) simp
  with assms(3) have "started_at r = sK" by auto
  moreover have "archive_start (getLastRun w1) cur = Some C"
    using assms by (simp add: archive_start_def truthy_def)
  ultimately show ?thesis
    using sync_phaseB_first_fetch[OF assms(3,4,5,6)] by simp
qed

lemma first_run_links:
  "syncInPostsFromPatreon three_link_net 10 20 initTables = (Inr (), after_first_run)
   \<and> getLastRun after_first_run
       = Some \<lparr>started_at = 10, duration_seconds = Some (1 / 100), posts_retrieved = Some 0,
               last_next_link = Some ''b''\<rparr>"
  by code_simp

lemma second_run_links:
  "phaseA three_link_net (storeRunStart 30 after_first_run)
     = (Inr (Some ''c'', 0), snd (phaseA three_link_net (storeRunStart 30 after_first_run)))"
  by code_simp

lemma first_run_ledger:
  "map last_next_link (patreon_post_runs after_first_run) = [Some ''b'']"
  by code_simp

theorem C2_witness:
  "syncInPostsFromPatreon three_link_net 10 20 initTables = (Inr (), after_first_run)
   \<and> map last_next_link (patreon_post_runs after_first_run) = [Some ''b'']
   \<and> fst (phaseA three_link_net (storeRunStart 30 after_first_run)) = Inr (Some ''c'', 0)
   \<and> take (Suc (length (fetched (snd (phaseA three_link_net (storeRunStart 30 after_first_run))))))
        (fetched (snd (syncInPostsFromPatreon three_link_net 30 40 after_first_run)))
       = fetched (snd (phaseA three_link_net (storeRunStart 30 after_first_run))) @ [''b'']"
proof -
  have ledger: "\<forall>x \<in> set (patreon_post_runs initTables). started_at x < 10"
    by (simp add: initTables_def)
  have first: "syncInPostsFromPatreon three_link_net 10 20 initTables = (Inr (), after_first_run)"
    and last_run: "getLastRun after_first_run
       = Some \<lparr>started_at = 10, duration_seconds = Some (1 / 100), posts_retrieved = Some 0,
               last_next_link = Some ''b''\<rparr>"
    using first_run_links by simp_all
  have cursor: "last_next_link \<lparr>started_at = 10, duration_seconds = Some (1 / 100),
      posts_retrieved = Some 0, last_next_link = Some ''b''\<rparr> = Some ''b''"
    and nonempty: "''b'' \<noteq> []"
    by simp_all
  have resumed:
    "take (Suc (length (fetched (snd (phaseA three_link_net (storeRunStart 30 after_first_run))))))
        (fetched (snd (syncInPostsFromPatreon three_link_net 30 40 after_first_run)))
       = fetched (snd (phaseA three_link_net (storeRunStart 30 after_first_run))) @ [''b'']"
    using C2_resume_at_stored_cursor [OF ledger first last_run cursor nonempty second_run_links,
        of 40]
    by simp
  have phase: "fst (phaseA three_link_net (storeRunStart 30 after_first_run)) = Inr (Some ''c'', 0)"
    using second_run_links by (metis fst_conv)
  from first first_run_ledger phase resumed show ?thesis by blast
qed

text \<open>
  The claim as stated fails for the cursor that is not null but empty. The first run
  below finalises with the empty string as its resume cursor; the second run then takes
  its 40 fetches at the start URL and at \<open>u\<close>, so the first fetch of its second loop
  (the 21st of the run) is at \<open>u\<close>, where the first loop stopped, and not at the
  stored cursor.
\<close>

theorem C2_counterexample:
  "fst (syncInPostsFromPatreon empty_link_net 10 20 initTables) = Inr ()
   \<and> map last_next_link (patreon_post_runs after_empty_link_run) = [Some []]
   \<and> length (fetched after_empty_link_run) = 21
   \<and> drop 21 (fetched (snd (syncInPostsFromPatreon empty_link_net 30 40 after_empty_link_run)))
       = initialApiUrl # replicate 39 ''u''"
  by code_simp

section \<open>Ingestion: runs over a simulated feed\<close>

lemma archive_start_stored:
  "archive_start (getLastRun w) c = (if truthy (stored_cursor w) then stored_cursor w else c)"
  by (simp add: archive_start_def stored_cursor_def truthy_def split: option.splits)

lemma sim_fetch_page:
  assumes "simulated_feed net cursor pages" and "i < length pages"
  shows "\<exists>w3. fetch_page net rc (cursor i) n w
           = (Inr (if Suc i < length pages then Some (cursor (Suc i)) else None,
                   n + length (pages ! i)), w3)
         \<and> upserted w3 = upserted w @ pages ! i"
proof -
  from assms have "net (length (fetched w)) (cursor i) =
      Some \<lparr>data = pages ! i,
            links_next = (if Suc i < length pages then Some (cursor (Suc i)) else None)\<rparr>"
    by (simp add: simulated_feed_def)
  then show ?thesis by (simp add: fetch_page_def Let_def)
qed

lemma sim_fetch_loop:
  assumes "simulated_feed net cursor pages" and "i < length pages"
  shows "\<exists>w'. fetch_loop net rc k (cursor i) n w
           = (Inr (if i + k < length pages then Some (cursor (i + k)) else None,
                   n + length (concat (take k (drop i pages)))), w')
         \<and> upserted w' = upserted w @ concat (take k (drop i pages))"
  using assms(2)
proof (induction k arbitrary: i n w)
  case 0
  then show ?case by simp
next
  case (Suc k)
  from sim_fetch_page[OF assms(1) Suc.prems, of rc n w] obtain w3 where
    page: "fetch_page net rc (cursor i) n w
           = (Inr (if Suc i < length pages then Some (cursor (Suc i)) else None,
                   n + length (pages ! i)), w3)"
    and ups: "upserted w3 = upserted w @ pages ! i" by blast
  have dr: "drop i pages = pages ! i # drop (Suc i) pages"
    using Suc.prems by (simp add: Cons_nth_drop_Suc)
  show ?case
  proof (cases "Suc i < length pages")
    case True
    with assms(1) have ne: "cursor (Suc i) \<noteq> []" by (simp add: simulated_feed_def)
    from Suc.IH[OF True, of "n + length (pages ! i)" w3] obtain w' where
      loop: "fetch_loop net rc k (cursor (Suc i)) (n + length (pages ! i)) w3
           = (Inr (if Suc i + k < length pages then Some (cursor (Suc i + k)) else None,
                   n + length (pages ! i) + length (concat (take k (drop (Suc i) pages)))), w')"
      and ups': "upserted w' = upserted w3 @ concat (take k (drop (Suc i) pages))" by blast
    from page True ne loop ups ups' dr show ?thesis by simp
  next
    case False
    with Suc.prems have "drop (Suc i) pages = []" by simp
    with page False ups dr show ?thesis by simp
  qed
qed

lemma fetch_loop_posts_of_upserted:
  assumes "fetch_loop net rc k u n w = (res, w')" and "upserted w' = upserted w @ ps"
  shows "patreon_posts w' = patreon_posts (upsertPosts ps w)"
  using fetch_loop_upserted[of net rc k u n w] assms by auto

lemma sim_phaseA:
  assumes "simulated_feed net cursor pages"
  shows "\<exists>wA. phaseA net w
           = (Inr (if 20 < length pages then Some (cursor 20) else None,
                   length (concat (take 20 pages))), wA)
         \<and> upserted wA = upserted w @ concat (take 20 pages)
         \<and> patreon_posts wA = patreon_posts (upsertPosts (concat (take 20 pages)) w)
         \<and> patreon_post_runs wA = patreon_post_runs w"
proof -
  from assms have pos: "0 < length pages" and start: "cursor 0 = initialApiUrl"
    by (simp_all add: simulated_feed_def)
  from sim_fetch_loop[OF assms pos, of True 20 0 w] start obtain wA where
    A: "fetch_loop net True 20 initialApiUrl 0 w
           = (Inr (if 20 < length pages then Some (cursor 20) else None,
                   length (concat (take 20 pages))), wA)"
    and ups: "upserted wA = upserted w @ concat (take 20 pages)" by auto
  from fetch_loop_posts_of_upserted[OF A ups] fetch_loop_runs[of net True 20 initialApiUrl 0 w] A ups
  show ?thesis by (simp add: phaseA_def)
qed

lemma sim_phaseB:
  assumes "simulated_feed net cursor pages" and "j < length pages"
  shows "\<exists>wB. phaseB net (cursor j) n w
           = (Inr (if j + 20 < length pages then Some (cursor (j + 20)) else None,
                   n + length (concat (take 20 (drop j pages)))), wB)
         \<and> upserted wB = upserted w @ concat (take 20 (drop j pages))
         \<and> patreon_posts wB = patreon_posts (upsertPosts (concat (take 20 (drop j pages))) w)
         \<and> patreon_post_runs wB = patreon_post_runs w"
proof -
  from sim_fetch_loop[OF assms, of False 20 n w] obtain wB where
    B: "fetch_loop net False 20 (cursor j) n w
           = (Inr (if j + 20 < length pages then Some (cursor (j + 20)) else None,
                   n + length (concat (take 20 (drop j pages)))), wB)"
    and ups: "upserted wB = upserted w @ concat (take 20 (drop j pages))" by auto
  from fetch_loop_posts_of_upserted[OF B ups] fetch_loop_runs[of net False 20 "cursor j" n w] B ups
  show ?thesis by (simp add: phaseB_def)
qed

text \<open>One run over a simulated feed whose second loop starts at page \<open>j\<close>.\<close>

lemma sim_sync:
  assumes feed: "simulated_feed net cursor pages"
    and led: "\<forall>x \<in> set (patreon_post_runs w). started_at x < s"
    and idx: "(stored_cursor w = Some (cursor j) \<and> j < length pages)
              \<or> (\<not> truthy (stored_cursor w) \<and> j = 20)"
  shows "\<exists>w' r. syncInPostsFromPatreon net s t w = (Inr (), w')
     \<and> patreon_post_runs w' = patreon_post_runs w @ [r]
     \<and> started_at r = s
     \<and> last_next_link r = (if j + 20 < length pages then Some (cursor (j + 20)) else None)
     \<and> upserted w' = upserted w @ concat (take 20 pages) @ concat (take 20 (drop j pages))
     \<and> patreon_posts w'
         = patreon_posts (upsertPosts (concat (take 20 pages) @ concat (take 20 (drop j pages))) w)"
proof -
  let ?w1 = "storeRunStart s w"
  let ?d = "of_int (t - s) / 1000 :: rat"
  let ?cA = "if 20 < length pages then Some (cursor 20) else None"
  let ?c' = "if j + 20 < length pages then Some (cursor (j + 20)) else None"
  from led have ne: "\<forall>x \<in> set (patreon_post_runs w). started_at x \<noteq> s" by auto
  from sim_phaseA[OF feed, of ?w1] obtain wA where
    A: "phaseA net ?w1 = (Inr (?cA, length (concat (take 20 pages))), wA)"
    and upsA: "upserted wA = upserted w @ concat (take 20 pages)"
    and postsA: "patreon_posts wA = patreon_posts (upsertPosts (concat (take 20 pages)) w)"
    and runsA: "patreon_post_runs wA = sql_insert_run s (patreon_post_runs w)"
    by (auto simp: upsertPosts_posts)
  let ?m = "length (concat (take 20 pages))"
  have skip: "\<not> j < length pages \<Longrightarrow> archive_start (getLastRun w) ?cA = None \<and> j = 20"
    using idx by (auto simp: archive_start_stored truthy_def split: option.splits)
  have go: "j < length pages \<Longrightarrow> archive_start (getLastRun w) ?cA = Some (cursor j) \<and> cursor j \<noteq> []"
    using idx feed by (auto simp: archive_start_stored truthy_def simulated_feed_def)
  show ?thesis
  proof (cases "j < length pages")
    case False
    with skip have st: "archive_start (getLastRun w) ?cA = None" and j: "j = 20" by simp_all
    let ?w' = "storeRunEnd s ?d ?m None wA"
    let ?r = "\<lparr>started_at = s, duration_seconds = Some ?d, posts_retrieved = Some ?m,
              last_next_link = None\<rparr>"
    have res: "syncInPostsFromPatreon net s t w = (Inr (), ?w')"
      using A st by (simp add: syncInPostsFromPatreon_def Let_def)
    have runs: "patreon_post_runs ?w' = patreon_post_runs w @ [?r]"
      using runsA sql_update_run_snoc[OF ne] by simp
    have empty: "drop j pages = []" using False by simp
    from res runs upsA postsA empty False show ?thesis
      by (intro exI[of _ ?w'] exI[of _ ?r]) simp
  next
    case True
    with go have st: "archive_start (getLastRun w) ?cA = Some (cursor j)" and cj: "cursor j \<noteq> []"
      by simp_all
    from sim_phaseB[OF feed True, of ?m wA] obtain wB where
      B: "phaseB net (cursor j) ?m wA
           = (Inr (?c', ?m + length (concat (take 20 (drop j pages)))), wB)"
      and upsB: "upserted wB = upserted wA @ concat (take 20 (drop j pages))"
      and postsB: "patreon_posts wB = patreon_posts (upsertPosts (concat (take 20 (drop j pages))) wA)"
      and runsB: "patreon_post_runs wB = patreon_post_runs wA" by blast
    let ?n = "?m + length (concat (take 20 (drop j pages)))"
    let ?w' = "storeRunEnd s ?d ?n ?c' wB"
    let ?r = "\<lparr>started_at = s, duration_seconds = Some ?d, posts_retrieved = Some ?n,
              last_next_link = ?c'\<rparr>"
    have res: "syncInPostsFromPatreon net s t w = (Inr (), ?w')"
      using A st cj B by (simp add: syncInPostsFromPatreon_def Let_def)
    have runs: "patreon_post_runs ?w' = patreon_post_runs w @ [?r]"
      using runsA runsB sql_update_run_snoc[OF ne] by simp
    have posts: "patreon_posts ?w'
         = patreon_posts (upsertPosts (concat (take 20 pages) @ concat (take 20 (drop j pages))) w)"
      using postsA postsB by (simp add: upsertPosts_append upsertPosts_posts)
    from res runs upsA upsB posts show ?thesis
      by (intro exI[of _ ?w'] exI[of _ ?r]) simp
  qed
qed

lemma stored_cursor_snoc:
  assumes "patreon_post_runs w = rs @ [r]" and "\<forall>x \<in> set rs. started_at x < started_at r"
  shows "getLastRun w = Some r" and "stored_cursor w = last_next_link r"
  using getLastRun_snoc[OF assms] by (simp_all add: stored_cursor_def)

lemma sim_sync_runs:
  assumes feed: "simulated_feed net cursor pages"
  shows "clock \<noteq> [] \<Longrightarrow> sorted_wrt (<) (map fst clock) \<Longrightarrow>
     \<forall>x \<in> set (patreon_post_runs w). started_at x < fst (hd clock) \<Longrightarrow>
     (stored_cursor w = Some (cursor j) \<and> j < length pages)
       \<or> (\<not> truthy (stored_cursor w) \<and> j = 20) \<Longrightarrow>
     length clock = 1 \<or> j + 20 * (length clock - 1) < length pages \<Longrightarrow>
     \<exists>r ps. getLastRun (sync_runs net clock w) = Some r
       \<and> last_next_link r = (if j + 20 * length clock < length pages
                               then Some (cursor (j + 20 * length clock)) else None)
       \<and> upserted (sync_runs net clock w) = upserted w @ ps
       \<and> set ps = set (concat (take 20 pages)) \<union> set (concat (take (20 * length clock) (drop j pages)))
       \<and> patreon_posts (sync_runs net clock w) = patreon_posts (upsertPosts ps w)"
proof (induction clock arbitrary: j w)
  case Nil
  then show ?case by simp
next
  case (Cons st rest)
  obtain s t where st: "st = (s, t)" by (cases st)
  from Cons.prems(3) st have led: "\<forall>x \<in> set (patreon_post_runs w). started_at x < s" by simp
  let ?ps1 = "concat (take 20 pages) @ concat (take 20 (drop j pages))"
  from sim_sync[OF feed led Cons.prems(4), of t] obtain w1 r1 where
    run: "syncInPostsFromPatreon net s t w = (Inr (), w1)"
    and runs1: "patreon_post_runs w1 = patreon_post_runs w @ [r1]"
    and s1: "started_at r1 = s"
    and c1: "last_next_link r1 = (if j + 20 < length pages then Some (cursor (j + 20)) else None)"
    and ups1: "upserted w1 = upserted w @ ?ps1"
    and posts1: "patreon_posts w1 = patreon_posts (upsertPosts ?ps1 w)"
    by blast
  from led s1 have "\<forall>x \<in> set (patreon_post_runs w). started_at x < started_at r1" by simp
  from stored_cursor_snoc[OF runs1 this]
  have last1: "getLastRun w1 = Some r1" and sc1: "stored_cursor w1 = last_next_link r1" by simp_all
  have unfold: "sync_runs net (st # rest) w = sync_runs net rest w1"
    using st run by simp
  show ?case
  proof (cases "rest = []")
    case True
    with unfold last1 c1 ups1 posts1 show ?thesis
      by (intro exI[of _ r1] exI[of _ ?ps1]) simp
  next
    case False
    then have len: "0 < length rest" by simp
    with Cons.prems(5) have far: "j + 20 * length rest < length pages" by simp
    with len have near: "j + 20 < length pages" by (cases "length rest") simp_all
    have sorted': "sorted_wrt (<) (map fst rest)" using Cons.prems(2) by simp
    have "s < fst (hd rest)" using Cons.prems(2) False st by (cases rest) auto
    with led runs1 s1 have led': "\<forall>x \<in> set (patreon_post_runs w1). started_at x < fst (hd rest)"
      by auto
    have idx': "(stored_cursor w1 = Some (cursor (j + 20)) \<and> j + 20 < length pages)
       \<or> (\<not> truthy (stored_cursor w1) \<and> j + 20 = 20)"
      using sc1 c1 near by simp
    have cond': "length rest = 1 \<or> (j + 20) + 20 * (length rest - 1) < length pages"
      using far len by (cases "length rest") simp_all
    from Cons.IH[OF False sorted' led' idx' cond'] obtain r ps2 where
      last: "getLastRun (sync_runs net rest w1) = Some r"
      and c: "last_next_link r = (if (j + 20) + 20 * length rest < length pages
                               then Some (cursor ((j + 20) + 20 * length rest)) else None)"
      and ups: "upserted (sync_runs net rest w1) = upserted w1 @ ps2"
      and set2: "set ps2 = set (concat (take 20 pages))
                   \<union> set (concat (take (20 * length rest) (drop (j + 20) pages)))"
      and posts: "patreon_posts (sync_runs net rest w1) = patreon_posts (upsertPosts ps2 w1)"
      by blast
    have tk: "take (20 * length (st # rest)) (drop j pages)
        = take 20 (drop j pages) @ take (20 * length rest) (drop (j + 20) pages)"
      using take_add[of 20 "20 * length rest" "drop j pages"] by (simp add: add.commute)
    have posts': "patreon_posts (sync_runs net rest w1) = patreon_posts (upsertPosts (?ps1 @ ps2) w)"
      using posts posts1 upsertPosts_posts_cong[of w1 "upsertPosts ?ps1 w" ps2]
      by (simp add: upsertPosts_append)
    have set': "set (?ps1 @ ps2) = set (concat (take 20 pages))
        \<union> set (concat (take (20 * length (st # rest)) (drop j pages)))"
      unfolding tk using set2 by auto
    have c': "last_next_link r = (if j + 20 * length (st # rest) < length pages
                               then Some (cursor (j + 20 * length (st # rest))) else None)"
      using c by (simp add: add.assoc)
    from unfold last c' ups ups1 set' posts' show ?thesis
      by (intro exI[of _ r] exI[of _ "?ps1 @ ps2"]) simp
  qed
qed

lemma runs_needed_bounds:
  fixes n :: nat
  shows "n \<le> 20 + 20 * runs_needed n"
    and "runs_needed n = 1 \<or> 20 + 20 * (runs_needed n - 1) < n"
  unfolding runs_needed_def by linarith+

text \<open>
  C1 (as amended). For every simulated feed of \<open>N\<close> pages that does not change
  between runs, and a fresh ledger: after \<open>max 1 (\<lceil>N/20\<rceil> - 1)\<close> runs, started at
  increasing times, every post of the feed has been upserted in these runs (so every
  id of the feed is in the table), and the row of the final run, which is the row
  \<open>getLastRun\<close> reads, has a null resume cursor. The first run covers 40 pages and
  every later one 20 more, since its first 20 fetches go to the most recent pages again.
\<close>

theorem C1_coverage_after_enough_runs:
  assumes "simulated_feed net cursor pages"
    and "patreon_post_runs w = []"
    and "sorted_wrt (<) (map fst clock)"
    and "length clock = runs_needed (length pages)"
  shows "\<exists>r ps. getLastRun (sync_runs net clock w) = Some r \<and> last_next_link r = None
    \<and> upserted (sync_runs net clock w) = upserted w @ ps \<and> set ps = set (concat pages)
    \<and> post_id ` set (concat pages) \<subseteq> r_id ` set (patreon_posts (sync_runs net clock w))"
proof -
  let ?R = "runs_needed (length pages)"
  have "0 < ?R" by (simp add: runs_needed_def)
  with assms(4) have ne: "clock \<noteq> []" by auto
  have led: "\<forall>x \<in> set (patreon_post_runs w). started_at x < fst (hd clock)"
    using assms(2) by simp
  have idx: "(stored_cursor w = Some (cursor 20) \<and> 20 < length pages)
       \<or> (\<not> truthy (stored_cursor w) \<and> (20::nat) = 20)"
    using assms(2) by (simp add: stored_cursor_def getLastRun_def truthy_def)
  have cond: "length clock = 1 \<or> 20 + 20 * (length clock - 1) < length pages"
    using runs_needed_bounds(2)[of "length pages"] assms(4) by simp
  from sim_sync_runs[OF assms(1) ne assms(3) led idx cond] obtain r ps where
    last: "getLastRun (sync_runs net clock w) = Some r"
    and c: "last_next_link r = (if 20 + 20 * length clock < length pages
                               then Some (cursor (20 + 20 * length clock)) else None)"
    and ups: "upserted (sync_runs net clock w) = upserted w @ ps"
    and sets: "set ps = set (concat (take 20 pages))
                 \<union> set (concat (take (20 * length clock) (drop 20 pages)))"
    and posts: "patreon_posts (sync_runs net clock w) = patreon_posts (upsertPosts ps w)"
    by blast
  have enough: "length pages \<le> 20 + 20 * length clock"
    using runs_needed_bounds(1)[of "length pages"] assms(4) by simp
  have "take 20 pages @ take (20 * length clock) (drop 20 pages) = pages"
    using take_add[of 20 "20 * length clock" pages] enough by simp
  then have "concat (take 20 pages) @ concat (take (20 * length clock) (drop 20 pages)) = concat pages"
    by (metis concat_append)
  with sets have all: "set ps = set (concat pages)" by (metis set_append)
  from c enough have null: "last_next_link r = None" by simp
  have "post_id ` set (concat pages) \<subseteq> r_id ` set (patreon_posts (sync_runs net clock w))"
    using posts all by (simp add: upsertPosts_ids)
  with last null ups all show ?thesis by blast
qed

section \<open>The concrete simulated feed\<close>

lemma initialApiUrl_hd: "initialApiUrl \<noteq> [] \<and> hd initialApiUrl = CHR ''h''"
  by (simp add: initialApiUrl_def)

lemma sim_cursor_nonempty: "sim_cursor i \<noteq> []"
  using initialApiUrl_hd by (simp add: sim_cursor_def)

lemma replicate_not_initial: "replicate i CHR ''c'' \<noteq> initialApiUrl"
proof
  assume eq: "replicate i CHR ''c'' = initialApiUrl"
  have "i \<noteq> 0"
  proof
    assume "i = 0"
    with eq initialApiUrl_hd show False by simp
  qed
  then have "hd (replicate i CHR ''c'') = CHR ''c''" by (cases i) simp_all
  with eq initialApiUrl_hd show False by simp
qed

lemma sim_net_cursor:
  "i < n \<Longrightarrow> sim_net n k (sim_cursor i) = Some (sim_page n i)"
  by (simp add: sim_net_def sim_cursor_def replicate_not_initial)

lemma sim_net_simulated:
  assumes "0 < n"
  shows "simulated_feed (sim_net n) sim_cursor (sim_pages n)"
  unfolding simulated_feed_def
proof (intro conjI allI impI)
  show "sim_pages n \<noteq> []" using assms by (simp add: sim_pages_def)
  show "sim_cursor 0 = initialApiUrl" by (simp add: sim_cursor_def)
  show "sim_cursor i \<noteq> []" for i by (rule sim_cursor_nonempty)
  show "sim_net n k (sim_cursor i) =
      Some \<lparr>data = sim_pages n ! i,
            links_next = (if Suc i < length (sim_pages n) then Some (sim_cursor (Suc i)) else None)\<rparr>"
    if "i < length (sim_pages n)" for k i
    using that by (simp add: sim_net_cursor sim_page_def sim_pages_def)
qed

lemma sim_post_inj: "sim_post i = sim_post j \<Longrightarrow> i = j"
proof -
  assume "sim_post i = sim_post j"
  then have "length (post_id (sim_post i)) = length (post_id (sim_post j))" by simp
  then show "i = j" by (simp add: sim_post_def)
qed

lemma sim_pages_window:
  "set (concat (take k (drop j (sim_pages n)))) = sim_post ` {j ..< min (j + k) n}"
proof -
  have "take k (drop j (sim_pages n)) = map (\<lambda>i. [sim_post i]) [j ..< min (j + k) n]"
    by (simp add: sim_pages_def take_map drop_map min_def add.commute)
  then show ?thesis by (auto simp: image_iff)
qed

lemma sim_pages_all: "set (concat (sim_pages n)) = sim_post ` {0 ..< n}"
  by (simp add: sim_pages_def concat_map_singleton)

theorem C1_witness:
  "patreon_post_runs initTables = []
   \<and> length [(10 :: int, 20 :: int), (30, 40), (50, 60)] = runs_needed (length (sim_pages 61))
   \<and> stored_cursor (sync_runs (sim_net 61) [(10, 20), (30, 40), (50, 60)] initTables) = None
   \<and> set (upserted (sync_runs (sim_net 61) [(10, 20), (30, 40), (50, 60)] initTables))
       = set (concat (sim_pages 61))"
proof -
  have feed: "simulated_feed (sim_net 61) sim_cursor (sim_pages 61)"
    by (rule sim_net_simulated) simp
  have fresh: "patreon_post_runs initTables = []" by (simp add: initTables_def)
  have clock: "sorted_wrt (<) (map fst [(10 :: int, 20 :: int), (30, 40), (50, 60)])" by simp
  have len: "length [(10 :: int, 20 :: int), (30, 40), (50, 60)] = runs_needed (length (sim_pages 61))"
    by (simp add: runs_needed_def sim_pages_def)
  from C1_coverage_after_enough_runs [OF feed fresh clock len] fresh len
  show ?thesis by (auto simp: stored_cursor_def initTables_def)
qed

lemma two_runs_61:
  "stored_cursor (sync_runs (sim_net 61) [(10, 20), (30, 40)] initTables) = Some (sim_cursor 60)
   \<and> set (upserted (sync_runs (sim_net 61) [(10, 20), (30, 40)] initTables)) = sim_post ` {0 ..< 60}"
proof -
  have feed: "simulated_feed (sim_net 61) sim_cursor (sim_pages 61)"
    by (rule sim_net_simulated) simp
  have len61: "length (sim_pages 61) = 61" by (simp add: sim_pages_def)
  have idx: "(stored_cursor initTables = Some (sim_cursor 20) \<and> 20 < length (sim_pages 61))
       \<or> (\<not> truthy (stored_cursor initTables) \<and> (20::nat) = 20)"
    by (simp add: stored_cursor_def getLastRun_def truthy_def initTables_def)
  from sim_sync_runs [OF feed, of "[(10, 20), (30, 40)]" initTables 20] idx len61
  obtain r ps where
    last: "getLastRun (sync_runs (sim_net 61) [(10, 20), (30, 40)] initTables) = Some r"
    and c: "last_next_link r = Some (sim_cursor 60)"
    and ups: "upserted (sync_runs (sim_net 61) [(10, 20), (30, 40)] initTables) = ps"
    and sets: "set ps = set (concat (take 20 (sim_pages 61)))
                 \<union> set (concat (take 40 (drop 20 (sim_pages 61))))"
    by (auto simp: initTables_def)
  have "set (concat (take 20 (sim_pages 61))) = sim_post ` {0 ..< 20}"
    using sim_pages_window[of 20 0 61] by simp
  moreover have "set (concat (take 40 (drop 20 (sim_pages 61)))) = sim_post ` {20 ..< 60}"
    using sim_pages_window[of 40 20 61] by simp
  moreover have "{0 ..< 20} \<union> {20 ..< 60} = {0 ..< (60::nat)}" by auto
  ultimately have "set ps = sim_post ` {0 ..< 60}" using sets by (metis image_Un)
  with last c ups show ?thesis by (simp add: stored_cursor_def)
qed

text \<open>
  The claim as stated fails for a feed of 61 pages: \<open>\<lceil>61/40\<rceil> = 2\<close> runs reach the
  pages 0 to 59 only. The resume cursor stored by the second run is the link to page
  60, not null, and the post of page 60 has not been upserted.
\<close>

theorem C1_counterexample:
  "(61 + 39) div 40 = (2::nat)
   \<and> length (sim_pages 61) = 61
   \<and> stored_cursor (sync_runs (sim_net 61) [(10, 20), (30, 40)] initTables) = Some (sim_cursor 60)
   \<and> sim_post 60 \<in> set (concat (sim_pages 61))
   \<and> sim_post 60 \<notin> set (upserted (sync_runs (sim_net 61) [(10, 20), (30, 40)] initTables))"
proof -
  have "sim_post 60 \<notin> sim_post ` {0 ..< 60}"
    using sim_post_inj by fastforce
  moreover have "sim_post 60 \<in> sim_post ` {0 ..< 61}" by simp
  then have "sim_post 60 \<in> set (concat (sim_pages 61))"
    by (simp only: sim_pages_all)
  ultimately show ?thesis using two_runs_61 by (simp add: sim_pages_def)
qed

section \<open>Query service: validation\<close>

text \<open>
  C6. For every page, search text and page size (any JavaScript numbers, finite or
  not), a call of \<open>getPosts\<close> whose sort column is not one of \<open>comment_count\<close>,
  \<open>like_count\<close>, \<open>published_at\<close>, or whose direction is not \<open>asc\<close> or \<open>desc\<close>,
  returns the empty sequence and raises no error, leaves both tables as they were and
  only writes the complaint to the console.
\<close>

theorem C6_invalid_sort_degrades:
  assumes "sortBy \<notin> set SortableColumns \<or> sortDirection \<notin> set [''asc'', ''desc'']"
  shows "fst (getPosts scan page sortBy sortDirection query perPage w) = Inr []
    \<and> patreon_posts (snd (getPosts scan page sortBy sortDirection query perPage w)) = patreon_posts w
    \<and> patreon_post_runs (snd (getPosts scan page sortBy sortDirection query perPage w))
        = patreon_post_runs w
    \<and> console (snd (getPosts scan page sortBy sortDirection query perPage w))
        = console w @ [ErrorInvalidSortParameters sortBy sortDirection]"
  using assms by (auto simp: getPosts_def)

theorem C6_witness:
  "''not_a_column'' \<notin> set SortableColumns
   \<and> fst (getPosts (\<lambda>t. t) (Finite 1) ''not_a_column'' ''desc'' [] (Finite 10) three_posts) = Inr []
   \<and> patreon_posts (snd (getPosts (\<lambda>t. t) (Finite 1) ''not_a_column'' ''desc'' [] (Finite 10) three_posts))
       = patreon_posts three_posts"
  using C6_invalid_sort_degrades [of "''not_a_column''" "''desc''" "\<lambda>t. t" "Finite 1" "[]"
      "Finite 10" three_posts]
  by (simp add: SortableColumns_def)

section \<open>Query service: the statement\<close>

lemma project_eq:
  "project = (\<lambda>r. \<lparr>s_title = r_title r, s_published_at = r_published_at r,
      s_comment_count = r_comment_count r, s_like_count = r_like_count r, s_url = r_url r\<rparr>)"
  by (simp add: fun_eq_iff project_def)

lemma sql_where_title_like_short:
  "length query \<le> 48 \<Longrightarrow> sql_where_title_like query rows = Inr (filter (title_matches query) rows)"
  by (induction rows) (simp_all add: sql_like_def title_matches_def)

lemma sql_where_title_like_long:
  "48 < length query \<Longrightarrow> rows \<noteq> [] \<Longrightarrow> sql_where_title_like query rows = Inl LikePatternTooComplex"
  by (cases rows) (simp_all add: sql_like_def)

lemma sql_must_be_int_of_int:
  "- (2 ^ 63) < i \<Longrightarrow> i < 2 ^ 63 - 1 \<Longrightarrow> sql_must_be_int (Finite (of_int i)) = Inr i"
  by (simp add: sql_must_be_int_def)

lemma js_offset_of_int:
  "js_times (js_minus (Finite (of_int page)) (Finite 1)) (Finite (of_int perPage))
     = Finite (of_int ((page - 1) * perPage))"
  by (simp add: js_times_def js_minus_def)

lemma safe_is_int64:
  fixes i :: int
  assumes "\<bar>i\<bar> \<le> 2 ^ 53"
  shows "- (2 ^ 63) < i" and "i < 2 ^ 63 - 1"
  using assms by simp_all

text \<open>The statement for integers in the exact range, when the search text is short.\<close>

lemma sql_select_posts_safe:
  assumes "length query \<le> 48" and "\<bar>limit\<bar> \<le> 2 ^ 53" and "\<bar>offset\<bar> \<le> 2 ^ 53"
  shows "sql_select_posts scan sortBy sortDirection query (Finite (of_int limit))
           (Finite (of_int offset)) t
      = Inr (map project
          (if limit = 0 then []
           else if limit < 0
           then drop (nat offset)
                  (sql_order_by sortBy sortDirection (filter (title_matches query) (scan t)))
           else take (nat limit) (drop (nat offset)
                  (sql_order_by sortBy sortDirection (filter (title_matches query) (scan t))))))"
  using assms safe_is_int64[of limit] safe_is_int64[of offset]
  by (simp add: sql_select_posts_def sql_must_be_int_of_int sql_where_title_like_short
      sql_limit_offset_def Let_def)

lemma getPosts_safe:
  assumes "sortBy \<in> set SortableColumns" and "sortDirection \<in> set [''asc'', ''desc'']"
    and "length query \<le> 48" and "\<bar>perPage\<bar> \<le> 2 ^ 53" and "\<bar>(page - 1) * perPage\<bar> \<le> 2 ^ 53"
  shows "getPosts scan (Finite (of_int page)) sortBy sortDirection query (Finite (of_int perPage)) w
      = (Inr (map project
          (if perPage = 0 then []
           else if perPage < 0
           then drop (nat ((page - 1) * perPage))
                  (sql_order_by sortBy sortDirection
                     (filter (title_matches query) (scan (patreon_posts w))))
           else take (nat perPage) (drop (nat ((page - 1) * perPage))
                  (sql_order_by sortBy sortDirection
                     (filter (title_matches query) (scan (patreon_posts w))))))), w)"
  using assms(1,2) sql_select_posts_safe[OF assms(3,4,5), of scan sortBy sortDirection "patreon_posts w"]
  by (simp add: getPosts_def Let_def js_offset_of_int)


section \<open>Query service: page and page size are not validated\<close>





section \<open>Query service: the search filter\<close>

lemma like_percent_only: "patternCompare ''%'' t"
  by (induction t) simp_all

lemma like_percent:
  "patternCompare (CHR ''%'' # p) t \<longleftrightarrow> (\<exists>a s. t = a @ s \<and> patternCompare p s)"
proof (induction t)
  case Nil
  show ?case by simp
next
  case (Cons c cs)
  have "(\<exists>a s. c # cs = a @ s \<and> patternCompare p s)
      \<longleftrightarrow> patternCompare p (c # cs) \<or> (\<exists>a s. cs = a @ s \<and> patternCompare p s)"
    by (auto simp: Cons_eq_append_conv)
  with Cons.IH show ?case by simp
qed




lemma mset_order_rows: "mset (order_rows key dir rows) = mset rows"
  by (simp add: order_rows_def)

lemma mset_sql_order_by: "mset (sql_order_by sortBy dir rows) = mset rows"
  by (simp add: sql_order_by_def mset_order_rows)






section \<open>Query service: pagination\<close>

lemma pages_concat:
  "concat (map (\<lambda>p. take P (drop ((p - 1) * P) R)) [1..<Suc n]) = take (n * P) R"
proof (induction n)
  case 0
  show ?case by simp
next
  case (Suc n)
  have "take (n * P) R @ take P (drop (n * P) R) = take (Suc n * P) R"
    using take_add[of "n * P" P R] by (simp add: add.commute)
  with Suc show ?case by simp
qed

lemma order_rows_sorted:
  fixes key :: "posts_row \<Rightarrow> 'k::linorder"
  shows "sorted (map key (order_rows key ''asc'' rows))"
    and "dir \<noteq> ''asc'' \<Longrightarrow> sorted (rev (map key (order_rows key dir rows)))"
  by (simp_all add: order_rows_def rev_map)

lemma order_rows_stable:
  fixes key :: "posts_row \<Rightarrow> 'k::linorder"
  shows "filter (\<lambda>r. key r = k) (order_rows key dir rows) = filter (\<lambda>r. key r = k) rows"
proof -
  have "filter (\<lambda>r. key r = k) (rev (sort_key key (rev rows))) = filter (\<lambda>r. key r = k) rows"
    by (simp add: sort_key_stable flip: rev_filter)
  then show ?thesis by (simp add: order_rows_def sort_key_stable)
qed

lemma title_matches_empty: "title_matches [] r"
  using like_percent[of "''%''" "r_title r"] like_percent_only
  by (simp add: title_matches_def) blast

lemma getPosts_page:
  assumes "sortBy \<in> set SortableColumns" and "sortDirection \<in> set [''asc'', ''desc'']"
    and "length query \<le> 48" and "0 < perPage" and "int n * perPage \<le> 2 ^ 53"
    and "1 \<le> p" and "p \<le> n"
  shows "getPosts scan (Finite (of_nat p)) sortBy sortDirection query (Finite (of_int perPage)) w
      = (Inr (map project (take (nat perPage) (drop ((p - 1) * nat perPage)
          (sql_order_by sortBy sortDirection
             (filter (title_matches query) (scan (patreon_posts w))))))), w)"
proof -
  have "int p * perPage \<le> int n * perPage"
    using assms(4,7) by (intro mult_right_mono) simp_all
  with assms(5) have top: "int p * perPage \<le> 2 ^ 53" by linarith
  have "perPage * 1 \<le> perPage * int p" using assms(4,6) by (intro mult_left_mono) simp_all
  then have "perPage \<le> int p * perPage" by (simp add: mult.commute)
  with top assms(4) have per: "\<bar>perPage\<bar> \<le> 2 ^ 53" by linarith
  have "(int p - 1) * perPage \<le> int p * perPage"
    using assms(4) by (intro mult_right_mono) simp_all
  moreover have "0 \<le> (int p - 1) * perPage" using assms(4,6) by simp
  ultimately have off: "\<bar>(int p - 1) * perPage\<bar> \<le> 2 ^ 53" using top by linarith
  have nat_off: "nat ((int p - 1) * perPage) = (p - 1) * nat perPage"
    using assms(4,6) by (simp add: nat_mult_distrib of_nat_diff)
  from getPosts_safe[OF assms(1,2,3) per off, of scan w] assms(4) nat_off
  show ?thesis by simp
qed

text \<open>
  C7 (as amended). For a fixed table, valid sort parameters, a search text of at most
  48 bytes and an integer page size \<open>perPage > 0\<close>, the pages 1 to \<open>n\<close> (with
  \<open>n * perPage\<close> at most \<open>2 ^ 53\<close>), computed with offset \<open>(page - 1) * perPage\<close>, are
  returned without error and are, in this order, the consecutive segments of one list
  of the matching rows: together they are its first \<open>n * perPage\<close> rows. That list
  holds every matching row exactly once; it is sorted on the sort column, upwards for
  \<open>asc\<close> and downwards for \<open>desc\<close>; and rows that tie on the sort column are in it
  in the order in which the engine produces them from the table, the same for every
  page. So no row is on two pages and, once \<open>n * perPage\<close> reaches the number of
  matching rows, every matching row is on a page.
\<close>

theorem C7_pages_partition:
  assumes "sortBy \<in> set SortableColumns" and "sortDirection \<in> set [''asc'', ''desc'']"
    and "length query \<le> 48" and "0 < perPage" and "int n * perPage \<le> 2 ^ 53"
  shows
   "let matching = filter (title_matches query) (scan (patreon_posts w));
        sorted_rows = sql_order_by sortBy sortDirection matching
    in (\<forall>p. 1 \<le> p \<and> p \<le> n \<longrightarrow>
          getPosts scan (Finite (of_nat p)) sortBy sortDirection query (Finite (of_int perPage)) w
            = (Inr (map (\<lambda>r. \<lparr>s_title = r_title r, s_published_at = r_published_at r,
                        s_comment_count = r_comment_count r, s_like_count = r_like_count r,
                        s_url = r_url r\<rparr>)
                 (take (nat perPage) (drop ((p - 1) * nat perPage) sorted_rows))), w))
     \<and> concat (map (\<lambda>p. take (nat perPage) (drop ((p - 1) * nat perPage) sorted_rows))
                 [1..<Suc n])
         = take (n * nat perPage) sorted_rows
     \<and> mset sorted_rows = mset matching
     \<and> (sortBy = ''comment_count'' \<longrightarrow>
          (if sortDirection = ''asc'' then sorted (map r_comment_count sorted_rows)
           else sorted (rev (map r_comment_count sorted_rows)))
          \<and> (\<forall>k. filter (\<lambda>r. r_comment_count r = k) sorted_rows
                  = filter (\<lambda>r. r_comment_count r = k) matching))
     \<and> (sortBy = ''like_count'' \<longrightarrow>
          (if sortDirection = ''asc'' then sorted (map r_like_count sorted_rows)
           else sorted (rev (map r_like_count sorted_rows)))
          \<and> (\<forall>k. filter (\<lambda>r. r_like_count r = k) sorted_rows
                  = filter (\<lambda>r. r_like_count r = k) matching))
     \<and> (sortBy = ''published_at'' \<longrightarrow>
          (if sortDirection = ''asc'' then sorted (map r_published_at sorted_rows)
           else sorted (rev (map r_published_at sorted_rows)))
          \<and> (\<forall>k. filter (\<lambda>r. r_published_at r = k) sorted_rows
                  = filter (\<lambda>r. r_published_at r = k) matching))"
proof -
  let ?M = "filter (title_matches query) (scan (patreon_posts w))"
  let ?L = "sql_order_by sortBy sortDirection ?M"
  have pages: "\<forall>p. 1 \<le> p \<and> p \<le> n \<longrightarrow>
          getPosts scan (Finite (of_nat p)) sortBy sortDirection query (Finite (of_int perPage)) w
            = (Inr (map (\<lambda>r. \<lparr>s_title = r_title r, s_published_at = r_published_at r,
                        s_comment_count = r_comment_count r, s_like_count = r_like_count r,
                        s_url = r_url r\<rparr>)
                 (take (nat perPage) (drop ((p - 1) * nat perPage) ?L))), w)"
  proof (intro allI impI)
    fix p :: nat
    assume "1 \<le> p \<and> p \<le> n"
    then have "1 \<le> p" and "p \<le> n" by simp_all
    from getPosts_page[OF assms this, where scan = scan and w = w]
    show "getPosts scan (Finite (of_nat p)) sortBy sortDirection query (Finite (of_int perPage)) w
            = (Inr (map (\<lambda>r. \<lparr>s_title = r_title r, s_published_at = r_published_at r,
                        s_comment_count = r_comment_count r, s_like_count = r_like_count r,
                        s_url = r_url r\<rparr>)
                 (take (nat perPage) (drop ((p - 1) * nat perPage) ?L))), w)"
      by (simp add: project_eq)
  qed
  have c1: "sortBy = ''comment_count'' \<longrightarrow>
          (if sortDirection = ''asc'' then sorted (map r_comment_count ?L)
           else sorted (rev (map r_comment_count ?L)))
          \<and> (\<forall>k. filter (\<lambda>r. r_comment_count r = k) ?L = filter (\<lambda>r. r_comment_count r = k) ?M)"
  proof
    assume col: "sortBy = ''comment_count''"
    have L: "?L = order_rows r_comment_count sortDirection ?M"
      by (simp add: sql_order_by_def col)
    have up: "sortDirection = ''asc'' \<Longrightarrow> sorted (map r_comment_count ?L)"
      unfolding L using order_rows_sorted(1)[of r_comment_count ?M] by simp
    have down: "sortDirection \<noteq> ''asc'' \<Longrightarrow> sorted (rev (map r_comment_count ?L))"
      unfolding L using order_rows_sorted(2)[of sortDirection r_comment_count ?M] by simp
    have stable: "\<forall>k. filter (\<lambda>r. r_comment_count r = k) ?L = filter (\<lambda>r. r_comment_count r = k) ?M"
      unfolding L by (simp add: order_rows_stable)
    from up down stable
    show "(if sortDirection = ''asc'' then sorted (map r_comment_count ?L)
           else sorted (rev (map r_comment_count ?L)))
          \<and> (\<forall>k. filter (\<lambda>r. r_comment_count r = k) ?L = filter (\<lambda>r. r_comment_count r = k) ?M)"
      by simp
  qed
  have c2: "sortBy = ''like_count'' \<longrightarrow>
          (if sortDirection = ''asc'' then sorted (map r_like_count ?L)
           else sorted (rev (map r_like_count ?L)))
          \<and> (\<forall>k. filter (\<lambda>r. r_like_count r = k) ?L = filter (\<lambda>r. r_like_count r = k) ?M)"
  proof
    assume col: "sortBy = ''like_count''"
    have L: "?L = order_rows r_like_count sortDirection ?M"
      by (simp add: sql_order_by_def col)
    have up: "sortDirection = ''asc'' \<Longrightarrow> sorted (map r_like_count ?L)"
      unfolding L using order_rows_sorted(1)[of r_like_count ?M] by simp
    have down: "sortDirection \<noteq> ''asc'' \<Longrightarrow> sorted (rev (map r_like_count ?L))"
      unfolding L using order_rows_sorted(2)[of sortDirection r_like_count ?M] by simp
    have stable: "\<forall>k. filter (\<lambda>r. r_like_count r = k) ?L = filter (\<lambda>r. r_like_count r = k) ?M"
      unfolding L by (simp add: order_rows_stable)
    from up down stable
    show "(if sortDirection = ''asc'' then sorted (map r_like_count ?L)
           else sorted (rev (map r_like_count ?L)))
          \<and> (\<forall>k. filter (\<lambda>r. r_like_count r = k) ?L = filter (\<lambda>r. r_like_count r = k) ?M)"
      by simp
  qed
  have c3: "sortBy = ''published_at'' \<longrightarrow>
          (if sortDirection = ''asc'' then sorted (map r_published_at ?L)
           else sorted (rev (map r_published_at ?L)))
          \<and> (\<forall>k. filter (\<lambda>r. r_published_at r = k) ?L = filter (\<lambda>r. r_published_at r = k) ?M)"
  proof
    assume col: "sortBy = ''published_at''"
    have L: "?L = order_rows r_published_at sortDirection ?M"
      by (simp add: sql_order_by_def col)
    have up: "sortDirection = ''asc'' \<Longrightarrow> sorted (map r_published_at ?L)"
      unfolding L using order_rows_sorted(1)[of r_published_at ?M] by simp
    have down: "sortDirection \<noteq> ''asc'' \<Longrightarrow> sorted (rev (map r_published_at ?L))"
      unfolding L using order_rows_sorted(2)[of sortDirection r_published_at ?M] by simp
    have stable: "\<forall>k. filter (\<lambda>r. r_published_at r = k) ?L = filter (\<lambda>r. r_published_at r = k) ?M"
      unfolding L by (simp add: order_rows_stable)
    from up down stable
    show "(if sortDirection = ''asc'' then sorted (map r_published_at ?L)
           else sorted (rev (map r_published_at ?L)))
          \<and> (\<forall>k. filter (\<lambda>r. r_published_at r = k) ?L = filter (\<lambda>r. r_published_at r = k) ?M)"
      by simp
  qed
  from pages pages_concat[of "nat perPage" ?L n] mset_sql_order_by[of sortBy sortDirection ?M]
    c1 c2 c3
  show ?thesis unfolding Let_def by blast
qed

lemma twenty_five_pages:
  "map_sum id (map (\<lambda>s. (s_comment_count s, length (s_title s)))) (fst (getPosts (\<lambda>t. t) (Finite (of_nat 1)) ''comment_count'' ''desc'' [] (Finite (of_int 10)) twenty_five_posts))
     = Inr [(4, 5), (4, 10), (4, 15), (4, 20), (4, 25), (3, 4), (3, 9), (3, 14), (3, 19), (3, 24)]
   \<and> map_sum id (map (\<lambda>s. (s_comment_count s, length (s_title s)))) (fst (getPosts (\<lambda>t. t) (Finite (of_nat 2)) ''comment_count'' ''desc'' [] (Finite (of_int 10)) twenty_five_posts))
     = Inr [(2, 3), (2, 8), (2, 13), (2, 18), (2, 23), (1, 2), (1, 7), (1, 12), (1, 17), (1, 22)]
   \<and> map_sum id (map (\<lambda>s. (s_comment_count s, length (s_title s)))) (fst (getPosts (\<lambda>t. t) (Finite (of_nat 3)) ''comment_count'' ''desc'' [] (Finite (of_int 10)) twenty_five_posts))
     = Inr [(0, 1), (0, 6), (0, 11), (0, 16), (0, 21)]"
  by code_simp

theorem C7_witness:
  "''comment_count'' \<in> set SortableColumns \<and> ''desc'' \<in> set [''asc'', ''desc'']
   \<and> length ([] :: string) \<le> 48 \<and> (0 :: int) < 10 \<and> int 3 * 10 \<le> 2 ^ 53
   \<and> length (patreon_posts twenty_five_posts) = 25
   \<and> fst (getPosts (\<lambda>t. t) (Finite (of_nat 1)) ''comment_count'' ''desc'' [] (Finite (of_int 10)) twenty_five_posts) = Inr (map (\<lambda>r. \<lparr>s_title = r_title r, s_published_at = r_published_at r,
                        s_comment_count = r_comment_count r, s_like_count = r_like_count r,
                        s_url = r_url r\<rparr>) (take 10 (drop 0 (sql_order_by ''comment_count'' ''desc'' (filter (title_matches []) (patreon_posts twenty_five_posts))))))
   \<and> fst (getPosts (\<lambda>t. t) (Finite (of_nat 2)) ''comment_count'' ''desc'' [] (Finite (of_int 10)) twenty_five_posts) = Inr (map (\<lambda>r. \<lparr>s_title = r_title r, s_published_at = r_published_at r,
                        s_comment_count = r_comment_count r, s_like_count = r_like_count r,
                        s_url = r_url r\<rparr>) (take 10 (drop 10 (sql_order_by ''comment_count'' ''desc'' (filter (title_matches []) (patreon_posts twenty_five_posts))))))
   \<and> fst (getPosts (\<lambda>t. t) (Finite (of_nat 3)) ''comment_count'' ''desc'' [] (Finite (of_int 10)) twenty_five_posts) = Inr (map (\<lambda>r. \<lparr>s_title = r_title r, s_published_at = r_published_at r,
                        s_comment_count = r_comment_count r, s_like_count = r_like_count r,
                        s_url = r_url r\<rparr>) (take 10 (drop 20 (sql_order_by ''comment_count'' ''desc'' (filter (title_matches []) (patreon_posts twenty_five_posts))))))
   \<and> take 10 (drop 0 (sql_order_by ''comment_count'' ''desc'' (filter (title_matches []) (patreon_posts twenty_five_posts)))) @ take 10 (drop 10 (sql_order_by ''comment_count'' ''desc'' (filter (title_matches []) (patreon_posts twenty_five_posts)))) @ take 10 (drop 20 (sql_order_by ''comment_count'' ''desc'' (filter (title_matches []) (patreon_posts twenty_five_posts)))) = (sql_order_by ''comment_count'' ''desc'' (filter (title_matches []) (patreon_posts twenty_five_posts)))
   \<and> mset (sql_order_by ''comment_count'' ''desc'' (filter (title_matches []) (patreon_posts twenty_five_posts))) = mset (patreon_posts twenty_five_posts)
   \<and> map_sum id (map (\<lambda>s. (s_comment_count s, length (s_title s)))) (fst (getPosts (\<lambda>t. t) (Finite (of_nat 1)) ''comment_count'' ''desc'' [] (Finite (of_int 10)) twenty_five_posts))
     = Inr [(4, 5), (4, 10), (4, 15), (4, 20), (4, 25), (3, 4), (3, 9), (3, 14), (3, 19), (3, 24)]
   \<and> map_sum id (map (\<lambda>s. (s_comment_count s, length (s_title s)))) (fst (getPosts (\<lambda>t. t) (Finite (of_nat 2)) ''comment_count'' ''desc'' [] (Finite (of_int 10)) twenty_five_posts))
     = Inr [(2, 3), (2, 8), (2, 13), (2, 18), (2, 23), (1, 2), (1, 7), (1, 12), (1, 17), (1, 22)]
   \<and> map_sum id (map (\<lambda>s. (s_comment_count s, length (s_title s)))) (fst (getPosts (\<lambda>t. t) (Finite (of_nat 3)) ''comment_count'' ''desc'' [] (Finite (of_int 10)) twenty_five_posts))
     = Inr [(0, 1), (0, 6), (0, 11), (0, 16), (0, 21)]"
proof -
  have valid: "''comment_count'' \<in> set SortableColumns" "''desc'' \<in> set [''asc'', ''desc'']"
    by (simp_all add: SortableColumns_def)
  have short: "length ([] :: string) \<le> 48" by simp
  have nums: "(0 :: int) < 10" "int 3 * 10 \<le> 2 ^ 53" by simp_all
  have len: "length (patreon_posts twenty_five_posts) = 25"
    by (simp add: twenty_five_posts_def initTables_def)
  have all: "filter (title_matches []) (patreon_posts twenty_five_posts)
      = patreon_posts twenty_five_posts"
    by (simp add: title_matches_empty)
  note inst = C7_pages_partition [OF valid short nums, of "\<lambda>t. t" twenty_five_posts,
      unfolded Let_def]
  from inst have pages: "\<forall>p. 1 \<le> p \<and> p \<le> 3 \<longrightarrow>
      getPosts (\<lambda>t. t) (Finite (of_nat p)) ''comment_count'' ''desc'' [] (Finite (of_int 10))
         twenty_five_posts
        = (Inr (map (\<lambda>r. \<lparr>s_title = r_title r, s_published_at = r_published_at r,
                        s_comment_count = r_comment_count r, s_like_count = r_like_count r,
                        s_url = r_url r\<rparr>) (take (nat 10) (drop ((p - 1) * nat 10) (sql_order_by ''comment_count'' ''desc'' (filter (title_matches []) (patreon_posts twenty_five_posts)))))), twenty_five_posts)"
    by blast
  from pages have "1 \<le> (1::nat) \<and> (1::nat) \<le> 3 \<longrightarrow>
      getPosts (\<lambda>t. t) (Finite (of_nat 1)) ''comment_count'' ''desc'' [] (Finite (of_int 10)) twenty_five_posts = (Inr (map (\<lambda>r. \<lparr>s_title = r_title r, s_published_at = r_published_at r,
                        s_comment_count = r_comment_count r, s_like_count = r_like_count r,
                        s_url = r_url r\<rparr>) (take (nat 10) (drop ((1 - 1) * nat 10) (sql_order_by ''comment_count'' ''desc'' (filter (title_matches []) (patreon_posts twenty_five_posts)))))), twenty_five_posts)"
    by blast
  then have p1: "fst (getPosts (\<lambda>t. t) (Finite (of_nat 1)) ''comment_count'' ''desc'' [] (Finite (of_int 10)) twenty_five_posts) = Inr (map (\<lambda>r. \<lparr>s_title = r_title r, s_published_at = r_published_at r,
                        s_comment_count = r_comment_count r, s_like_count = r_like_count r,
                        s_url = r_url r\<rparr>) (take 10 (drop 0 (sql_order_by ''comment_count'' ''desc'' (filter (title_matches []) (patreon_posts twenty_five_posts))))))"
    by simp
  from pages have "1 \<le> (2::nat) \<and> (2::nat) \<le> 3 \<longrightarrow>
      getPosts (\<lambda>t. t) (Finite (of_nat 2)) ''comment_count'' ''desc'' [] (Finite (of_int 10)) twenty_five_posts = (Inr (map (\<lambda>r. \<lparr>s_title = r_title r, s_published_at = r_published_at r,
                        s_comment_count = r_comment_count r, s_like_count = r_like_count r,
                        s_url = r_url r\<rparr>) (take (nat 10) (drop ((2 - 1) * nat 10) (sql_order_by ''comment_count'' ''desc'' (filter (title_matches []) (patreon_posts twenty_five_posts)))))), twenty_five_posts)"
    by blast
  then have p2: "fst (getPosts (\<lambda>t. t) (Finite (of_nat 2)) ''comment_count'' ''desc'' [] (Finite (of_int 10)) twenty_five_posts) = Inr (map (\<lambda>r. \<lparr>s_title = r_title r, s_published_at = r_published_at r,
                        s_comment_count = r_comment_count r, s_like_count = r_like_count r,
                        s_url = r_url r\<rparr>) (take 10 (drop 10 (sql_order_by ''comment_count'' ''desc'' (filter (title_matches []) (patreon_posts twenty_five_posts))))))"
    by simp
  from pages have "1 \<le> (3::nat) \<and> (3::nat) \<le> 3 \<longrightarrow>
      getPosts (\<lambda>t. t) (Finite (of_nat 3)) ''comment_count'' ''desc'' [] (Finite (of_int 10)) twenty_five_posts = (Inr (map (\<lambda>r. \<lparr>s_title = r_title r, s_published_at = r_published_at r,
                        s_comment_count = r_comment_count r, s_like_count = r_like_count r,
                        s_url = r_url r\<rparr>) (take (nat 10) (drop ((3 - 1) * nat 10) (sql_order_by ''comment_count'' ''desc'' (filter (title_matches []) (patreon_posts twenty_five_posts)))))), twenty_five_posts)"
    by blast
  then have p3: "fst (getPosts (\<lambda>t. t) (Finite (of_nat 3)) ''comment_count'' ''desc'' [] (Finite (of_int 10)) twenty_five_posts) = Inr (map (\<lambda>r. \<lparr>s_title = r_title r, s_published_at = r_published_at r,
                        s_comment_count = r_comment_count r, s_like_count = r_like_count r,
                        s_url = r_url r\<rparr>) (take 10 (drop 20 (sql_order_by ''comment_count'' ''desc'' (filter (title_matches []) (patreon_posts twenty_five_posts))))))"
    by simp
  from inst have perm: "mset (sql_order_by ''comment_count'' ''desc'' (filter (title_matches []) (patreon_posts twenty_five_posts))) = mset (patreon_posts twenty_five_posts)"
    by (simp add: all)
  then have lenL: "length (sql_order_by ''comment_count'' ''desc'' (filter (title_matches []) (patreon_posts twenty_five_posts))) = 25" using len by (metis size_mset)
  from inst have "concat (map (\<lambda>p. take (nat 10) (drop ((p - 1) * nat 10) (sql_order_by ''comment_count'' ''desc'' (filter (title_matches []) (patreon_posts twenty_five_posts))))) [1..<Suc 3])
      = take (3 * nat 10) (sql_order_by ''comment_count'' ''desc'' (filter (title_matches []) (patreon_posts twenty_five_posts)))"
    by blast
  moreover have "[1..<Suc 3] = [1, 2, 3]" by (simp add: upt_rec)
  ultimately have cat: "take 10 (drop 0 (sql_order_by ''comment_count'' ''desc'' (filter (title_matches []) (patreon_posts twenty_five_posts)))) @ take 10 (drop 10 (sql_order_by ''comment_count'' ''desc'' (filter (title_matches []) (patreon_posts twenty_five_posts)))) @ take 10 (drop 20 (sql_order_by ''comment_count'' ''desc'' (filter (title_matches []) (patreon_posts twenty_five_posts)))) = (sql_order_by ''comment_count'' ''desc'' (filter (title_matches []) (patreon_posts twenty_five_posts)))"
    using lenL by simp
  from valid short nums len p1 p2 p3 cat perm twenty_five_pages show ?thesis by blast
qed

text \<open>
  The claim as stated fails, since the page size is not validated. With page size
  \<open>-1\<close> every page is the whole table, so every row is on page 1 and on page 2; with
  page size 0 every page is empty, so no row is on any page; a page size of
  \<open>2 ^ 63\<close> makes the call raise, and so does a search text of 49 bytes.
\<close>

theorem C7_counterexample:
  "map_sum id (map s_title)
      (fst (getPosts (\<lambda>t. t) (Finite 1) ''comment_count'' ''desc'' [] (Finite (- 1)) three_posts))
     = Inr [''Special'', ''Episode 2'', ''Episode 1'']
   \<and> map_sum id (map s_title)
      (fst (getPosts (\<lambda>t. t) (Finite 2) ''comment_count'' ''desc'' [] (Finite (- 1)) three_posts))
     = Inr [''Special'', ''Episode 2'', ''Episode 1'']
   \<and> fst (getPosts (\<lambda>t. t) (Finite 1) ''comment_count'' ''desc'' [] (Finite 0) three_posts) = Inr []
   \<and> fst (getPosts (\<lambda>t. t) (Finite 2) ''comment_count'' ''desc'' [] (Finite 0) three_posts) = Inr []
   \<and> fst (getPosts (\<lambda>t. t) (Finite 1) ''comment_count'' ''desc'' [] (Finite (2 ^ 63)) three_posts)
     = Inl SqliteMismatch
   \<and> fst (getPosts (\<lambda>t. t) (Finite 1) ''comment_count'' ''desc'' (replicate 49 CHR ''x'') (Finite 10)
        three_posts)
     = Inl LikePatternTooComplex"
  by code_simp

end
